theory Spec2Isabelle
  imports Main
begin

section \<open>Data model of \<^verbatim>\<open>src/envs/env.py\<close>\<close>

text \<open>
  A cell is a Python tuple \<^verbatim>\<open>(row, column)\<close> of unbounded integers. The exceptions the
  modelled code can raise are values of \<open>error\<close>; a failing \<^verbatim>\<open>step\<close> returns the
  exception together with the environment as it stands at the raise, because Python mutates
  \<^verbatim>\<open>self\<close> in place and an exception does not undo earlier writes. \<open>Exhausted\<close> is not
  an exception: it says that the finite list of random draws handed to \<open>reset\<close> ended
  before the run did, so that the model does not say how the run goes on.
\<close>

type_synonym cell = "int \<times> int"

datatype error = ValueError | IndexError | TypeError | Exhausted

text \<open>Class \<^verbatim>\<open>Robot\<close>: \<^verbatim>\<open>carrying\<close> is a package id, 0 for empty hands.\<close>

record robot =
  position :: cell
  carrying :: int

text \<open>
  The four values the attribute \<^verbatim>\<open>Package.status\<close> takes: the strings
  \<^verbatim>\<open>'None'\<close>, \<^verbatim>\<open>'waiting'\<close>, \<^verbatim>\<open>'in_transit'\<close> and \<^verbatim>\<open>'delivered'\<close>.
\<close>

datatype status = NoneStatus | Waiting | InTransit | Delivered

record package =
  start :: cell
  start_time :: int
  target :: cell
  deadline :: int
  package_id :: int
  status :: status

text \<open>
  Class \<^verbatim>\<open>Environment\<close>, the attributes the simulation reads and writes. Rewards are
  Python floats; they are kept in an arbitrary type \<open>'r\<close> with a zero and an addition, of
  which no law is used, so every statement below follows the additions the code performs in
  the order it performs them. The random generator is not a field: its draws are an
  explicit argument of \<open>reset\<close>.
\<close>

record 'r env =
  grid :: "int list list"
  move_cost :: 'r
  delivery_reward :: 'r
  delay_reward :: 'r
  t :: int
  robots :: "robot list"
  packages :: "package list"
  total_reward :: 'r
  n_robots :: int
  max_time_steps :: int
  n_packages :: int

text \<open>\<^verbatim>\<open>n_rows\<close> and \<^verbatim>\<open>n_cols\<close> are set once in \<^verbatim>\<open>__init__\<close> from the grid, which is never
  reassigned.\<close>

definition n_rows :: "'r env \<Rightarrow> int" where
  "n_rows e = int (length (grid e))"

definition n_cols :: "'r env \<Rightarrow> int" where
  "n_cols e = (if grid e = [] then 0 else int (length (hd (grid e))))"

text \<open>An action is the pair \<^verbatim>\<open>(move_action, package_action)\<close> of Python strings.\<close>

type_synonym action = "string \<times> string"

section \<open>Positions\<close>

definition compute_new_position :: "cell \<Rightarrow> string \<Rightarrow> cell" where
  "compute_new_position pos move =
     (case pos of (r, c) \<Rightarrow>
        if move = ''S'' then (r, c)
        else if move = ''L'' then (r, c - 1)
        else if move = ''R'' then (r, c + 1)
        else if move = ''U'' then (r - 1, c)
        else if move = ''D'' then (r + 1, c)
        else (r, c))"

text \<open>
  \<^verbatim>\<open>self.grid[r][c]\<close> for \<open>0 \<le> r < n_rows\<close> and \<open>0 \<le> c < n_cols\<close>: the row exists, the column
  exists only if that row is as long as the first one; a shorter row raises IndexError.
\<close>

definition grid_at :: "'r env \<Rightarrow> int \<Rightarrow> int \<Rightarrow> error + int" where
  "grid_at e r c =
     (let row = grid e ! nat r
      in if nat c < length row then Inr (row ! nat c) else Inl IndexError)"

definition valid_position :: "'r env \<Rightarrow> cell \<Rightarrow> error + bool" where
  "valid_position e pos =
     (case pos of (r, c) \<Rightarrow>
        if r < 0 \<or> r \<ge> n_rows e \<or> c < 0 \<or> c \<ge> n_cols e then Inr False
        else (case grid_at e r c of
                Inl err \<Rightarrow> Inl err
              | Inr v \<Rightarrow> if v = 1 then Inr False else Inr True))"

definition is_free_cell :: "'r env \<Rightarrow> cell \<Rightarrow> error + bool" where
  "is_free_cell e pos =
     (case pos of (r, c) \<Rightarrow>
        if r < 0 \<or> r \<ge> n_rows e \<or> c < 0 \<or> c \<ge> n_cols e then Inr False
        else (case grid_at e r c of
                Inl err \<Rightarrow> Inl err
              | Inr v \<Rightarrow> Inr (v = 0)))"

section \<open>The step: proposed positions\<close>

text \<open>
  The first loop of \<^verbatim>\<open>step\<close>, over \<^verbatim>\<open>enumerate(self.robots)\<close>. The accumulator is
  \<^verbatim>\<open>(proposed_positions, old_pos, next_pos)\<close>; the two dictionaries keep the last index
  written for a key.
\<close>

fun propose ::
  "'r env \<Rightarrow> action list \<Rightarrow> (nat \<times> robot) list \<Rightarrow>
   cell list \<times> (cell \<rightharpoonup> nat) \<times> (cell \<rightharpoonup> nat) \<Rightarrow>
   error + (cell list \<times> (cell \<rightharpoonup> nat) \<times> (cell \<rightharpoonup> nat))" where
  "propose e actions [] acc = Inr acc"
| "propose e actions ((i, rb) # rest) (proposed_positions, old_pos, next_pos) =
     (let move = fst (actions ! i);
          new_pos = compute_new_position (position rb) move
      in case valid_position e new_pos of
           Inl err \<Rightarrow> Inl err
         | Inr ok \<Rightarrow>
             (let new_pos = (if \<not> ok then position rb else new_pos)
              in propose e actions rest
                   (proposed_positions @ [new_pos],
                    old_pos(position rb \<mapsto> i),
                    next_pos(new_pos \<mapsto> i))))"

section \<open>The step: movement-conflict resolution\<close>

text \<open>The four local containers of the resolution loop.\<close>

record resolver =
  moved_robots :: "int list"
  computed_moved :: "int list"
  final_positions :: "cell option list"
  occupied :: "cell \<rightharpoonup> nat"

text \<open>
  The body under \<^verbatim>\<open>if can_move:\<close>. Both branches set \<^verbatim>\<open>updated = True\<close>, so the scan
  breaks right after. Writing a list out of range raises IndexError.
\<close>

definition decide :: "resolver \<Rightarrow> nat \<Rightarrow> cell \<Rightarrow> cell \<Rightarrow> error + (resolver \<times> bool)" where
  "decide st i pos new_pos =
     (if length (final_positions st) \<le> i \<or> length (computed_moved st) \<le> i
         \<or> length (moved_robots st) \<le> i then Inl IndexError
      else if occupied st new_pos = None then
        Inr (st\<lparr>occupied := (occupied st)(new_pos \<mapsto> i),
                final_positions := (final_positions st)[i := Some new_pos],
                computed_moved := (computed_moved st)[i := 1],
                moved_robots := (moved_robots st)[i := 1]\<rparr>, True)
      else
        Inr (st\<lparr>occupied := (occupied st)(pos \<mapsto> i),
                final_positions := (final_positions st)[i := Some pos],
                computed_moved := (computed_moved st)[i := 1],
                moved_robots := (moved_robots st)[i := 0]\<rparr>, True))"

text \<open>
  One pass of \<^verbatim>\<open>for i in range(len(self.robots))\<close>, over the indices still to visit. It
  returns the containers and the flag \<^verbatim>\<open>updated\<close>. Reading a list out of range raises
  IndexError.
\<close>

fun scan ::
  "robot list \<Rightarrow> cell list \<Rightarrow> (cell \<rightharpoonup> nat) \<Rightarrow> resolver \<Rightarrow> nat list \<Rightarrow>
   error + (resolver \<times> bool)" where
  "scan rs proposed_positions old_pos st [] = Inr (st, False)"
| "scan rs proposed_positions old_pos st (i # rest) =
     (if length (computed_moved st) \<le> i then Inl IndexError
      else if computed_moved st ! i \<noteq> 0 then scan rs proposed_positions old_pos st rest
      else if length rs \<le> i \<or> length proposed_positions \<le> i then Inl IndexError
      else
        (let pos = position (rs ! i);
             new_pos = proposed_positions ! i
         in case old_pos new_pos of
              None \<Rightarrow> decide st i pos new_pos
            | Some j \<Rightarrow>
                if j \<noteq> i \<and> length (computed_moved st) \<le> j then Inl IndexError
                else if j \<noteq> i \<and> computed_moved st ! j = 0
                then scan rs proposed_positions old_pos st rest
                else decide st i pos new_pos))"

text \<open>The number of robots the loop has not decided yet.\<close>

definition undecided :: "resolver \<Rightarrow> nat" where
  "undecided st = length (filter (\<lambda>c. c = 0) (computed_moved st))"

lemma filter_zero_update:
  "i < length xs \<Longrightarrow> xs ! i = (0::int) \<Longrightarrow>
   length (filter (\<lambda>c. c = 0) (xs[i := 1])) < length (filter (\<lambda>c. c = 0) xs)"
proof (induction xs arbitrary: i)
  case Nil
  then show ?case by simp
next
  case (Cons x xs)
  show ?case
  proof (cases i)
    case 0
    with Cons.prems show ?thesis by simp
  next
    case (Suc k)
    with Cons.prems have "k < length xs" "xs ! k = 0" by simp_all
    from Cons.IH [OF this] Suc show ?thesis by simp
  qed
qed

lemma decide_progress:
  "decide st i pos new_pos = Inr (st', u) \<Longrightarrow> computed_moved st ! i = 0 \<Longrightarrow>
   undecided st' < undecided st"
  by (auto simp: decide_def undecided_def filter_zero_update split: if_splits)

lemma scan_progress:
  "scan rs pp old_pos st is = Inr (st', True) \<Longrightarrow> undecided st' < undecided st"
proof (induction "is")
  case Nil
  then show ?case by simp
next
  case (Cons i rest)
  then show ?case
    by (auto simp: Let_def split: if_splits option.splits dest: decide_progress)
qed

text \<open>
  The \<^verbatim>\<open>while True\<close> loop: scan; leave when the pass decided nobody. Each repeated pass
  has decided one more robot, which is why the loop ends.
\<close>

function resolve_loop ::
  "robot list \<Rightarrow> cell list \<Rightarrow> (cell \<rightharpoonup> nat) \<Rightarrow> resolver \<Rightarrow> error + resolver" where
  "resolve_loop rs proposed_positions old_pos st =
     (case scan rs proposed_positions old_pos st [0..<length rs] of
        Inl err \<Rightarrow> Inl err
      | Inr (st', updated) \<Rightarrow>
          if updated then resolve_loop rs proposed_positions old_pos st' else Inr st')"
  by pat_completeness auto
termination
  by (relation "measure (\<lambda>(rs, pp, old_pos, st). undecided st)")
     (auto dest: scan_progress)

text \<open>
  The loop after the \<^verbatim>\<open>while\<close>: a robot the scan never decided gets its current cell.
\<close>

fun default_unresolved :: "robot list \<Rightarrow> resolver \<Rightarrow> nat list \<Rightarrow> error + resolver" where
  "default_unresolved rs st [] = Inr st"
| "default_unresolved rs st (i # rest) =
     (if length (computed_moved st) \<le> i then Inl IndexError
      else if computed_moved st ! i = 0 then
        (if length rs \<le> i \<or> length (final_positions st) \<le> i then Inl IndexError
         else default_unresolved rs
                (st\<lparr>final_positions := (final_positions st)[i := Some (position (rs ! i))]\<rparr>)
                rest)
      else default_unresolved rs st rest)"

text \<open>
  Lines 211 to 258 together. An entry of \<^verbatim>\<open>final_positions\<close> still \<^verbatim>\<open>None\<close> at the end
  would make the first later read of that robot's coordinates fail with a TypeError; the
  model reports it here (lemma \<open>resolve_movement_total\<close> shows that neither this nor the
  IndexError of the loops can happen).
\<close>

definition resolve_movement ::
  "robot list \<Rightarrow> cell list \<Rightarrow> (cell \<rightharpoonup> nat) \<Rightarrow> error + cell list" where
  "resolve_movement rs proposed_positions old_pos =
     (let n = length rs;
          st0 = \<lparr>moved_robots = replicate n 0, computed_moved = replicate n 0,
                 final_positions = replicate n None, occupied = Map.empty\<rparr>
      in case resolve_loop rs proposed_positions old_pos st0 of
           Inl err \<Rightarrow> Inl err
         | Inr st \<Rightarrow>
             (case default_unresolved rs st [0..<n] of
                Inl err \<Rightarrow> Inl err
              | Inr st' \<Rightarrow>
                  (case those (final_positions st') of
                     None \<Rightarrow> Inl TypeError
                   | Some fp \<Rightarrow> Inr fp)))"

section \<open>The step: movement cost and package actions\<close>

text \<open>
  Lines 261 to 265, over \<^verbatim>\<open>enumerate(self.robots)\<close>: the cost test reads the robot's
  position before the assignment that moves it. The result is the reward so far and the
  robots with their new positions.
\<close>

fun update_positions ::
  "'r::plus \<Rightarrow> action list \<Rightarrow> cell list \<Rightarrow> (nat \<times> robot) list \<Rightarrow> 'r \<Rightarrow> 'r \<times> robot list" where
  "update_positions mc actions fp [] r = (r, [])"
| "update_positions mc actions fp ((i, rb) # rest) r =
     (let move = fst (actions ! i);
          r1 = (if move \<in> set [''L'', ''R'', ''U'', ''D''] \<and> fp ! i \<noteq> position rb
                then r + mc else r);
          (r2, rs') = update_positions mc actions fp rest r1
      in (r2, rb\<lparr>position := fp ! i\<rparr> # rs'))"

text \<open>
  The inner loop of a pick-up: the index of the first package that is waiting at the
  robot's cell and has been released, if there is one.
\<close>

fun find_waiting :: "package list \<Rightarrow> cell \<Rightarrow> int \<Rightarrow> nat \<Rightarrow> nat option" where
  "find_waiting [] pos now j = None"
| "find_waiting (p # ps) pos now j =
     (if status p = Waiting \<and> start p = pos \<and> start_time p \<le> now then Some j
      else find_waiting ps pos now (Suc j))"

text \<open>
  Python's list subscript: a negative index counts from the end, an index outside the
  list raises IndexError (here \<open>None\<close>).
\<close>

definition py_index :: "'a list \<Rightarrow> int \<Rightarrow> nat option" where
  "py_index xs k =
     (let n = int (length xs); k' = (if k < 0 then k + n else k)
      in if 0 \<le> k' \<and> k' < n then Some (nat k') else None)"

text \<open>
  The package action of robot \<open>i\<close> (lines 269 to 300), on the environment after the
  movement and the reward so far.
\<close>

definition package_action ::
  "'r::plus env \<Rightarrow> nat \<Rightarrow> string \<Rightarrow> 'r \<Rightarrow> (error \<times> 'r env) + ('r env \<times> 'r)" where
  "package_action e i pkg_act r =
     (let rb = robots e ! i in
      if pkg_act = ''1'' then
        (if carrying rb = 0 then
           (case find_waiting (packages e) (position rb) (t e) 0 of
              None \<Rightarrow> Inr (e, r)
            | Some j \<Rightarrow>
                Inr (e\<lparr>robots := (robots e)[i := rb\<lparr>carrying := package_id (packages e ! j)\<rparr>],
                       packages := (packages e)[j := (packages e ! j)\<lparr>status := InTransit\<rparr>]\<rparr>,
                     r))
         else Inr (e, r))
      else if pkg_act = ''2'' then
        (if carrying rb \<noteq> 0 then
           (case py_index (packages e) (carrying rb - 1) of
              None \<Rightarrow> Inl (IndexError, e)
            | Some k \<Rightarrow>
                (let pkg = packages e ! k in
                 if position rb = target pkg then
                   Inr (e\<lparr>packages := (packages e)[k := pkg\<lparr>status := Delivered\<rparr>],
                          robots := (robots e)[i := rb\<lparr>carrying := 0\<rparr>]\<rparr>,
                        if t e \<le> deadline pkg then r + delivery_reward e
                        else r + delay_reward e)
                 else Inr (e, r)))
         else Inr (e, r))
      else Inr (e, r))"

fun package_actions ::
  "'r::plus env \<Rightarrow> action list \<Rightarrow> nat list \<Rightarrow> 'r \<Rightarrow> (error \<times> 'r env) + ('r env \<times> 'r)" where
  "package_actions e actions [] r = Inr (e, r)"
| "package_actions e actions (i # rest) r =
     (case package_action e i (snd (actions ! i)) r of
        Inl err \<Rightarrow> Inl err
      | Inr (e', r') \<Rightarrow> package_actions e' actions rest r')"

section \<open>Termination test and snapshot\<close>

fun all_delivered :: "package list \<Rightarrow> bool" where
  "all_delivered [] = True"
| "all_delivered (p # ps) = (if status p \<noteq> Delivered then False else all_delivered ps)"

definition check_terminate :: "'r env \<Rightarrow> bool" where
  "check_terminate e = (if t e = max_time_steps e then True else all_delivered (packages e))"

text \<open>
  The dictionary \<^verbatim>\<open>get_state\<close> returns: \<^verbatim>\<open>time_step\<close>, \<^verbatim>\<open>map\<close>, \<^verbatim>\<open>robots\<close> and
  \<^verbatim>\<open>packages\<close>, the last two as lists of tuples in 1-based coordinates.
\<close>

record snapshot =
  time_step :: int
  snapshot_map :: "int list list"
  snapshot_robots :: "(int \<times> int \<times> int) list"
  snapshot_packages :: "(int \<times> int \<times> int \<times> int \<times> int \<times> int \<times> int) list"

definition robot_tuple :: "robot \<Rightarrow> int \<times> int \<times> int" where
  "robot_tuple rb = (fst (position rb) + 1, snd (position rb) + 1, carrying rb)"

definition package_tuple :: "package \<Rightarrow> int \<times> int \<times> int \<times> int \<times> int \<times> int \<times> int" where
  "package_tuple p =
     (package_id p, fst (start p) + 1, snd (start p) + 1,
      fst (target p) + 1, snd (target p) + 1, start_time p, deadline p)"

text \<open>
  \<^verbatim>\<open>get_state\<close> selects the packages whose \<^verbatim>\<open>start_time\<close> is the current tick, sets
  the status of each of them to \<^verbatim>\<open>'waiting'\<close>, and builds the dictionary.
\<close>

definition get_state :: "'r env \<Rightarrow> 'r env \<times> snapshot" where
  "get_state e =
     (let selected_packages = filter (\<lambda>p. start_time p = t e) (packages e);
          ps' = map (\<lambda>p. if start_time p = t e then p\<lparr>status := Waiting\<rparr> else p) (packages e)
      in (e\<lparr>packages := ps'\<rparr>,
          \<lparr>time_step = t e, snapshot_map = grid e,
           snapshot_robots = map robot_tuple (robots e),
           snapshot_packages = map package_tuple selected_packages\<rparr>))"

section \<open>The step\<close>

text \<open>
  The dictionary \<^verbatim>\<open>infos\<close> is a list of key-value pairs in insertion order; its values
  are a reward or a number of ticks.
\<close>

datatype 'r info_value = Reward 'r | Ticks int

text \<open>
  \<^verbatim>\<open>step\<close> returns \<^verbatim>\<open>(state, r, done, infos)\<close> and leaves the environment changed; the
  model returns the new environment first. A raise returns the exception and the
  environment at that moment. The part under the banner \<^verbatim>\<open>Process Movement\<close> (lines 196
  to 265) is \<open>movement_phase\<close>: it returns the environment with the robots moved and the
  reward so far.
\<close>

definition movement_phase ::
  "'r::{zero,plus} env \<Rightarrow> action list \<Rightarrow> (error \<times> 'r env) + ('r env \<times> 'r)" where
  "movement_phase e actions =
     (case propose e actions (enumerate 0 (robots e)) ([], Map.empty, Map.empty) of
        Inl err \<Rightarrow> Inl (err, e)
      | Inr (proposed_positions, old_pos, next_pos) \<Rightarrow>
          (case resolve_movement (robots e) proposed_positions old_pos of
             Inl err \<Rightarrow> Inl (err, e)
           | Inr fp \<Rightarrow>
               (let (r1, rs') =
                      update_positions (move_cost e) actions fp (enumerate 0 (robots e)) 0
                in Inr (e\<lparr>robots := rs'\<rparr>, r1))))"

definition step ::
  "'r::{zero,plus} env \<Rightarrow> action list \<Rightarrow>
   (error \<times> 'r env) + ('r env \<times> snapshot \<times> 'r \<times> bool \<times> (string \<times> 'r info_value) list)" where
  "step e actions =
     (if length actions \<noteq> length (robots e) then Inl (ValueError, e)
      else
        (case movement_phase e actions of
           Inl err \<Rightarrow> Inl err
         | Inr (e1, r1) \<Rightarrow>
             (case package_actions e1 actions [0..<length (robots e1)] r1 of
                Inl err \<Rightarrow> Inl err
              | Inr (e2, r) \<Rightarrow>
                  (let e3 = e2\<lparr>t := t e2 + 1\<rparr>;
                       e4 = e3\<lparr>total_reward := total_reward e3 + r\<rparr>;
                       done = check_terminate e4;
                       infos = (if done
                                then [(''total_reward'', Reward (total_reward e4)),
                                      (''total_time_steps'', Ticks (t e4))]
                                else []);
                       (e5, snap) = get_state e4
                   in Inr (e5, snap, r, done, infos)))))"

section \<open>Scenario generation: \<^verbatim>\<open>reset\<close>\<close>

text \<open>
  numpy is not part of the repository. \<^verbatim>\<open>RandomState.randint(low, high)\<close> is modelled
  from its contract: it raises ValueError when \<open>low \<ge> high\<close> and returns an integer of
  \<open>[low, high)\<close> otherwise. Which one is the generator's business: the model takes the
  raw draws as a list of integers and reduces the next one into the range, so every value
  of the range is a possible result and nothing else is.
\<close>

definition randint :: "int \<Rightarrow> int \<Rightarrow> int list \<Rightarrow> error + (int \<times> int list)" where
  "randint low high draws =
     (if low \<ge> high then Inl ValueError
      else (case draws of
              [] \<Rightarrow> Inl Exhausted
            | x # rest \<Rightarrow> Inr (low + x mod (high - low), rest)))"

text \<open>
  The comprehension \<^verbatim>\<open>[(i, j) for i in range(n_rows) for j in range(n_cols) if g[i][j] == 0]\<close>;
  a row shorter than \<^verbatim>\<open>n_cols\<close> raises IndexError.
\<close>

definition free_cells :: "int list list \<Rightarrow> int \<Rightarrow> int \<Rightarrow> error + cell list" where
  "free_cells g nr nc =
     (if list_ex (\<lambda>i. length (g ! i) < nat nc) [0..<nat nr] then Inl IndexError
      else Inr (concat (map (\<lambda>i. map (\<lambda>j. (int i, int j))
                                    (filter (\<lambda>j. g ! i ! j = 0) [0..<nat nc]))
                            [0..<nat nr])))"

definition get_random_free_cell_p :: "'r env \<Rightarrow> int list \<Rightarrow> error + (cell \<times> int list)" where
  "get_random_free_cell_p e draws =
     (case free_cells (grid e) (n_rows e) (n_cols e) of
        Inl err \<Rightarrow> Inl err
      | Inr fc \<Rightarrow>
          (case randint 0 (int (length fc)) draws of
             Inl err \<Rightarrow> Inl err
           | Inr (i, draws') \<Rightarrow> Inr (fc ! nat i, draws')))"

text \<open>
  \<^verbatim>\<open>get_random_free_cell\<close> works on the copy \<^verbatim>\<open>tmp_grid\<close> of the grid and marks the cell
  it returns, so that no later call returns it again.
\<close>

definition get_random_free_cell ::
  "'r env \<Rightarrow> int list list \<Rightarrow> int list \<Rightarrow> error + (cell \<times> int list list \<times> int list)" where
  "get_random_free_cell e new_grid draws =
     (case free_cells new_grid (n_rows e) (n_cols e) of
        Inl err \<Rightarrow> Inl err
      | Inr fc \<Rightarrow>
          (case randint 0 (int (length fc)) draws of
             Inl err \<Rightarrow> Inl err
           | Inr (i, draws') \<Rightarrow>
               (let c = fc ! nat i
                in Inr (c,
                        new_grid[nat (fst c) := (new_grid ! nat (fst c))[nat (snd c) := 1]],
                        draws'))))"

definition add_robot :: "'r env \<Rightarrow> cell \<Rightarrow> error + 'r env" where
  "add_robot e pos =
     (case is_free_cell e pos of
        Inl err \<Rightarrow> Inl err
      | Inr free \<Rightarrow>
          if free then Inr (e\<lparr>robots := robots e @ [\<lparr>position = pos, carrying = 0\<rparr>]\<rparr>)
          else Inl ValueError)"

fun place_robots ::
  "'r env \<Rightarrow> int list list \<Rightarrow> nat list \<Rightarrow> int list \<Rightarrow>
   error + ('r env \<times> int list list \<times> int list)" where
  "place_robots e tmp_grid [] draws = Inr (e, tmp_grid, draws)"
| "place_robots e tmp_grid (i # rest) draws =
     (case get_random_free_cell e tmp_grid draws of
        Inl err \<Rightarrow> Inl err
      | Inr (pos, tmp_grid', draws') \<Rightarrow>
          (case add_robot e pos of
             Inl err \<Rightarrow> Inl err
           | Inr e' \<Rightarrow> place_robots e' tmp_grid' rest draws'))"

lemma randint_consumes:
  "randint low high draws = Inr (x, draws') \<Longrightarrow> length draws' < length draws"
  by (auto simp: randint_def split: if_splits list.splits)

lemma get_random_free_cell_p_consumes:
  "get_random_free_cell_p e draws = Inr (c, draws') \<Longrightarrow> length draws' < length draws"
  by (auto simp: get_random_free_cell_p_def split: sum.splits dest: randint_consumes)

text \<open>
  The loop \<^verbatim>\<open>while True: target = ...; if start != target: break\<close>. Every turn takes one
  draw, so on a finite list of draws it ends, with \<open>Exhausted\<close> if no draw differed from
  the start cell.
\<close>

function draw_target :: "'r env \<Rightarrow> cell \<Rightarrow> int list \<Rightarrow> error + (cell \<times> int list)" where
  "draw_target e start_cell draws =
     (case get_random_free_cell_p e draws of
        Inl err \<Rightarrow> Inl err
      | Inr (target_cell, draws') \<Rightarrow>
          if start_cell \<noteq> target_cell then Inr (target_cell, draws')
          else draw_target e start_cell draws')"
  by pat_completeness auto
termination
  by (relation "measure (\<lambda>(e, c, draws). length draws)")
     (auto dest: get_random_free_cell_p_consumes)

text \<open>
  The loop of lines 112 to 125, over the indices still to generate; the records are
  \<^verbatim>\<open>(start_time, start, target, deadline)\<close>. The lower bound \<^verbatim>\<open>N/2\<close> of the slack is a
  float that numpy truncates.
\<close>

fun generate_packages ::
  "'r env \<Rightarrow> nat list \<Rightarrow> int list \<Rightarrow> (int \<times> cell \<times> cell \<times> int) list \<Rightarrow>
   error + ((int \<times> cell \<times> cell \<times> int) list \<times> int list)" where
  "generate_packages e [] draws list_packages = Inr (list_packages, draws)"
| "generate_packages e (i # rest) draws list_packages =
     (case get_random_free_cell_p e draws of
        Inl err \<Rightarrow> Inl err
      | Inr (start_cell, d1) \<Rightarrow>
     (case draw_target e start_cell d1 of
        Inl err \<Rightarrow> Inl err
      | Inr (target_cell, d2) \<Rightarrow>
     (case randint (n_rows e div 2) (3 * n_rows e) d2 of
        Inl err \<Rightarrow> Inl err
      | Inr (x, d3) \<Rightarrow>
     (let to_deadline = 10 + x in
      case (if int i \<le> min (n_robots e) 20 then Inr (0, d3)
            else randint 1 (max_time_steps e) d3) of
        Inl err \<Rightarrow> Inl err
      | Inr (start_time', d4) \<Rightarrow>
          generate_packages e rest d4
            (list_packages @
               [(start_time', start_cell, target_cell, start_time' + to_deadline)])))))"

definition make_package :: "int \<times> cell \<times> cell \<times> int \<Rightarrow> int \<Rightarrow> package" where
  "make_package rec pid =
     (case rec of (start_time', start_cell, target_cell, deadline') \<Rightarrow>
        \<lparr>start = start_cell, start_time = start_time', target = target_cell,
         deadline = deadline', package_id = pid, status = NoneStatus\<rparr>)"

text \<open>
  \<^verbatim>\<open>reset\<close>: the list of records is sorted by \<^verbatim>\<open>start_time\<close> with Python's stable sort
  (\<open>sort_key\<close> is stable too), and package \<open>i\<close> of the sorted list gets the id \<open>i + 1\<close>.
  It returns the new environment, the first snapshot and the draws left.
\<close>

definition reset :: "'r::zero env \<Rightarrow> int list \<Rightarrow> error + ('r env \<times> snapshot \<times> int list)" where
  "reset e draws =
     (let e0 = e\<lparr>t := 0, robots := [], packages := [], total_reward := 0\<rparr>
      in case place_robots e0 (grid e0) [0..<nat (n_robots e0)] draws of
           Inl err \<Rightarrow> Inl err
         | Inr (e1, tmp_grid, d1) \<Rightarrow>
             (case generate_packages e1 [0..<nat (n_packages e1)] d1 [] of
                Inl err \<Rightarrow> Inl err
              | Inr (list_packages, d2) \<Rightarrow>
                  (let sorted_packages = sort_key fst list_packages;
                       e2 = e1\<lparr>packages :=
                                map (\<lambda>i. make_package (sorted_packages ! i) (int i + 1))
                                    [0..<nat (n_packages e1)]\<rparr>;
                       (e3, snap) = get_state e2
                   in Inr (e3, snap, d2))))"

section \<open>Reachable environments\<close>

text \<open>
  The environments a caller can hold: what a \<^verbatim>\<open>reset\<close> returned (from any configuration,
  and any draws), and what a \<^verbatim>\<open>step\<close> that returned made of such an environment.
\<close>

inductive reachable :: "'r::{zero,plus} env \<Rightarrow> bool" where
  after_reset: "reset e draws = Inr (e', snap, draws') \<Longrightarrow> reachable e'"
| after_step: "reachable e \<Longrightarrow> step e actions = Inr (e', snap, r, done, infos) \<Longrightarrow> reachable e'"

section \<open>Notions used in the statements\<close>

text \<open>
  What a snapshot shows of the environment it was taken of: the tick, every robot, and the
  packages whose \<^verbatim>\<open>start_time\<close> is that tick, no other one.
\<close>

definition revealed :: "'r env \<Rightarrow> snapshot \<Rightarrow> bool" where
  "revealed e' snap \<longleftrightarrow>
     time_step snap = t e' \<and>
     snapshot_robots snap = map robot_tuple (robots e') \<and>
     snapshot_packages snap =
       map package_tuple (filter (\<lambda>p. start_time p = t e') (packages e')) \<and>
     (\<forall>p \<in> set (packages e').
        package_tuple p \<in> set (snapshot_packages snap) \<longleftrightarrow> start_time p = t e')"

text \<open>
  Two actions the step cannot tell apart: the same package action, the same target from
  every cell, and both or neither among the four moves that can cost.
\<close>

definition same_effect :: "action \<Rightarrow> action \<Rightarrow> bool" where
  "same_effect a b \<longleftrightarrow>
     snd a = snd b \<and>
     (\<forall>pos. compute_new_position pos (fst a) = compute_new_position pos (fst b)) \<and>
     (fst a \<in> set [''L'', ''R'', ''U'', ''D''] \<longleftrightarrow> fst b \<in> set [''L'', ''R'', ''U'', ''D''])"

text \<open>
  What the resolution loop keeps of its containers, whatever the positions: the three lists
  have one entry per robot, and a decided robot has its own cell or its proposed cell.
\<close>

definition resolver_basic :: "robot list \<Rightarrow> cell list \<Rightarrow> resolver \<Rightarrow> bool" where
  "resolver_basic rs pp st \<longleftrightarrow>
     length (computed_moved st) = length rs \<and>
     length (final_positions st) = length rs \<and>
     length (moved_robots st) = length rs \<and>
     (\<forall>i < length rs. computed_moved st ! i \<noteq> 0 \<longrightarrow>
        final_positions st ! i = Some (position (rs ! i)) \<or>
        final_positions st ! i = Some (pp ! i))"

text \<open>
  What it keeps when the robots stand on distinct cells: \<^verbatim>\<open>occupied\<close> holds exactly the
  cells given to decided robots, two decided robots have different cells, and the cell of
  an undecided robot is given to nobody.
\<close>

definition resolver_occ :: "robot list \<Rightarrow> resolver \<Rightarrow> bool" where
  "resolver_occ rs st \<longleftrightarrow>
     (\<forall>c. occupied st c \<noteq> None \<longleftrightarrow>
        (\<exists>i < length rs. computed_moved st ! i \<noteq> 0 \<and> final_positions st ! i = Some c)) \<and>
     (\<forall>i < length rs. \<forall>j < length rs.
        i \<noteq> j \<and> computed_moved st ! i \<noteq> 0 \<and> computed_moved st ! j \<noteq> 0 \<longrightarrow>
        final_positions st ! i \<noteq> final_positions st ! j) \<and>
     (\<forall>k < length rs. computed_moved st ! k = 0 \<longrightarrow> occupied st (position (rs ! k)) = None)"

text \<open>The dictionary \<^verbatim>\<open>old_pos\<close> maps cells to robot indices.\<close>

definition old_pos_bounded :: "robot list \<Rightarrow> (cell \<rightharpoonup> nat) \<Rightarrow> bool" where
  "old_pos_bounded rs old_pos \<longleftrightarrow> (\<forall>c j. old_pos c = Some j \<longrightarrow> j < length rs)"

text \<open>With distinct cells it maps the cell of every robot to that robot, and nothing else.\<close>

definition old_pos_exact :: "robot list \<Rightarrow> (cell \<rightharpoonup> nat) \<Rightarrow> bool" where
  "old_pos_exact rs old_pos \<longleftrightarrow>
     (\<forall>c j. old_pos c = Some j \<longleftrightarrow> j < length rs \<and> position (rs ! j) = c)"

text \<open>A robot that a pass may decide: undecided, and not waiting for another robot.\<close>

definition decidable :: "robot list \<Rightarrow> cell list \<Rightarrow> (cell \<rightharpoonup> nat) \<Rightarrow> resolver \<Rightarrow> nat \<Rightarrow> bool" where
  "decidable rs pp old_pos st i \<longleftrightarrow>
     i < length rs \<and> computed_moved st ! i = 0 \<and>
     (case old_pos (pp ! i) of None \<Rightarrow> True
      | Some j \<Rightarrow> j = i \<or> computed_moved st ! j \<noteq> 0)"

text \<open>The containers before the loop.\<close>

definition initial_resolver :: "nat \<Rightarrow> resolver" where
  "initial_resolver n =
     \<lparr>moved_robots = replicate n 0, computed_moved = replicate n 0,
      final_positions = replicate n None, occupied = Map.empty\<rparr>"

text \<open>The final cell of robot \<open>i\<close>, read off the containers the loop ends with.\<close>

definition settled :: "robot list \<Rightarrow> resolver \<Rightarrow> nat \<Rightarrow> cell" where
  "settled rs st i =
     (if computed_moved st ! i = 0 then position (rs ! i) else the (final_positions st ! i))"

text \<open>The list \<^verbatim>\<open>proposed_positions\<close> alone.\<close>

definition proposed :: "'r env \<Rightarrow> action list \<Rightarrow> error + cell list" where
  "proposed e actions =
     (case propose e actions (enumerate 0 (robots e)) ([], Map.empty, Map.empty) of
        Inl err \<Rightarrow> Inl err
      | Inr (pp, old_pos, next_pos) \<Rightarrow> Inr pp)"

text \<open>A map whose rows all have the length of the first.\<close>

definition rectangular :: "'r env \<Rightarrow> bool" where
  "rectangular e \<longleftrightarrow> (\<forall>row \<in> set (grid e). length row = length (hd (grid e)))"

text \<open>
  The cost rule in the words of the specification: going through the robots in order,
  \<^verbatim>\<open>move_cost\<close> is added for robot \<open>i\<close> exactly when its move is one of the four
  directions and its position after the step differs from its position before.
\<close>

definition move_cost_rule :: "'r::{zero,plus} env \<Rightarrow> action list \<Rightarrow> 'r env \<Rightarrow> 'r" where
  "move_cost_rule e actions e' =
     fold (\<lambda>i acc. if fst (actions ! i) \<in> {''L'', ''R'', ''U'', ''D''} \<and>
                       position (robots e' ! i) \<noteq> position (robots e ! i)
                    then acc + move_cost e else acc)
          [0..<length (robots e)] 0"

text \<open>
  The statuses in the order of a package's life: \<^verbatim>\<open>'None'\<close> until the package is released,
  then \<^verbatim>\<open>'waiting'\<close>, \<^verbatim>\<open>'in_transit'\<close>, \<^verbatim>\<open>'delivered'\<close>.
\<close>

fun rank :: "status \<Rightarrow> nat" where
  "rank NoneStatus = 0"
| "rank Waiting = 1"
| "rank InTransit = 2"
| "rank Delivered = 3"

text \<open>
  What \<^verbatim>\<open>reset\<close> establishes and every \<^verbatim>\<open>step\<close> keeps, at the tick \<open>now\<close>: package \<open>j\<close> of
  the list has the id \<open>j + 1\<close>; a package whose \<^verbatim>\<open>start_time\<close> is still to come has the
  status \<^verbatim>\<open>'None'\<close>; a robot that carries something carries the id of a package of the
  list that has been released.
\<close>

definition lifecycle_ok :: "int \<Rightarrow> robot list \<Rightarrow> package list \<Rightarrow> bool" where
  "lifecycle_ok now rs ps \<longleftrightarrow>
     (\<forall>j < length ps. package_id (ps ! j) = int j + 1) \<and>
     (\<forall>j < length ps. now < start_time (ps ! j) \<longrightarrow> status (ps ! j) = NoneStatus) \<and>
     (\<forall>i < length rs. carrying (rs ! i) \<noteq> 0 \<longrightarrow>
        1 \<le> carrying (rs ! i) \<and> carrying (rs ! i) \<le> int (length ps) \<and>
        start_time (ps ! nat (carrying (rs ! i) - 1)) \<le> now)"

definition lifecycle_inv :: "'r env \<Rightarrow> bool" where
  "lifecycle_inv e \<longleftrightarrow> lifecycle_ok (t e) (robots e) (packages e)"

text \<open>The second list holds the same packages, none at an earlier status.\<close>

definition advances :: "package list \<Rightarrow> package list \<Rightarrow> bool" where
  "advances ps ps' \<longleftrightarrow>
     length ps' = length ps \<and>
     (\<forall>j < length ps. rank (status (ps ! j)) \<le> rank (status (ps' ! j)))"

text \<open>What \<^verbatim>\<open>get_state\<close> does to one package at the tick \<open>now\<close>.\<close>

definition reveal :: "int \<Rightarrow> package \<Rightarrow> package" where
  "reveal now p = (if start_time p = now then p\<lparr>status := Waiting\<rparr> else p)"

text \<open>
  \<open>later e e'\<close>: the environment \<open>e'\<close> is what some calls of \<^verbatim>\<open>step\<close> made of \<open>e\<close>, whether
  they returned or raised, with no \<^verbatim>\<open>reset\<close> in between (a \<^verbatim>\<open>reset\<close> discards the packages and
  creates new ones).
\<close>

inductive later :: "'r::{zero,plus} env \<Rightarrow> 'r env \<Rightarrow> bool" where
  later_refl: "later e e"
| later_step: "later e e1 \<Longrightarrow> step e1 actions = Inr (e2, snap, r, done, infos) \<Longrightarrow> later e e2"
| later_raise: "later e e1 \<Longrightarrow> step e1 actions = Inl (err, e2) \<Longrightarrow> later e e2"

section \<open>Concrete scenarios\<close>

text \<open>
  A 2 by 3 map with one obstacle. In \<open>example_env\<close> the second robot carries package 1
  and stands on its target, one tick before package 2 is released.
\<close>

definition example_env :: "int env" where
  "example_env =
     \<lparr>grid = [[0, 0, 0], [0, 1, 0]], move_cost = - 1, delivery_reward = 100,
      delay_reward = 10, t = 0,
      robots = [\<lparr>position = (0, 0), carrying = 0\<rparr>, \<lparr>position = (0, 2), carrying = 1\<rparr>],
      packages = [\<lparr>start = (0, 1), start_time = 0, target = (0, 2), deadline = 0,
                   package_id = 1, status = InTransit\<rparr>,
                  \<lparr>start = (0, 1), start_time = 1, target = (0, 0), deadline = 20,
                   package_id = 2, status = NoneStatus\<rparr>],
      total_reward = 0, n_robots = 2, max_time_steps = 10, n_packages = 2\<rparr>"

definition example_env_after :: "int env" where
  "example_env_after =
     \<lparr>grid = [[0, 0, 0], [0, 1, 0]], move_cost = - 1, delivery_reward = 100,
      delay_reward = 10, t = 1,
      robots = [\<lparr>position = (0, 1), carrying = 0\<rparr>, \<lparr>position = (0, 2), carrying = 0\<rparr>],
      packages = [\<lparr>start = (0, 1), start_time = 0, target = (0, 2), deadline = 0,
                   package_id = 1, status = Delivered\<rparr>,
                  \<lparr>start = (0, 1), start_time = 1, target = (0, 0), deadline = 20,
                   package_id = 2, status = Waiting\<rparr>],
      total_reward = 99, n_robots = 2, max_time_steps = 10, n_packages = 2\<rparr>"

definition example_snapshot_after :: snapshot where
  "example_snapshot_after =
     \<lparr>time_step = 1, snapshot_map = [[0, 0, 0], [0, 1, 0]],
      snapshot_robots = [(1, 2, 0), (1, 3, 0)],
      snapshot_packages = [(2, 1, 2, 1, 1, 1, 20)]\<rparr>"

text \<open>A configuration for \<^verbatim>\<open>reset\<close>: one robot, three packages, horizon 10.\<close>

definition example_config :: "int env" where
  "example_config =
     \<lparr>grid = [[0, 0, 0], [0, 1, 0]], move_cost = - 1, delivery_reward = 100,
      delay_reward = 10, t = 0, robots = [], packages = [],
      total_reward = 0, n_robots = 1, max_time_steps = 10, n_packages = 3\<rparr>"

definition example_draws :: "int list" where
  "example_draws = [3, 0, 1, 4, 2, 2, 3, 5, 1, 0, 3, 7, 8, 9]"

definition example_start :: "int env" where
  "example_start =
     \<lparr>grid = [[0, 0, 0], [0, 1, 0]], move_cost = - 1, delivery_reward = 100,
      delay_reward = 10, t = 0,
      robots = [\<lparr>position = (1, 0), carrying = 0\<rparr>],
      packages = [\<lparr>start = (0, 0), start_time = 0, target = (0, 1), deadline = 15,
                   package_id = 1, status = Waiting\<rparr>,
                  \<lparr>start = (0, 2), start_time = 0, target = (1, 0), deadline = 11,
                   package_id = 2, status = Waiting\<rparr>,
                  \<lparr>start = (0, 1), start_time = 8, target = (0, 0), deadline = 22,
                   package_id = 3, status = NoneStatus\<rparr>],
      total_reward = 0, n_robots = 1, max_time_steps = 10, n_packages = 3\<rparr>"

definition example_start_snapshot :: snapshot where
  "example_start_snapshot =
     \<lparr>time_step = 0, snapshot_map = [[0, 0, 0], [0, 1, 0]],
      snapshot_robots = [(2, 1, 0)],
      snapshot_packages = [(1, 1, 1, 1, 2, 0, 15), (2, 1, 3, 2, 1, 0, 11)]\<rparr>"

text \<open>The records the package loop of that \<^verbatim>\<open>reset\<close> generates, before the sort.\<close>

definition example_records :: "(int \<times> cell \<times> cell \<times> int) list" where
  "example_records =
     [(0, (0, 0), (0, 1), 15), (0, (0, 2), (1, 0), 11), (8, (0, 1), (0, 0), 22)]"

text \<open>
  The step of \<open>example_env\<close> in which both robots ask for the free cell between them:
  after the movement, and after the whole step.
\<close>

definition example_contend_moved :: "int env" where
  "example_contend_moved =
     example_env\<lparr>robots := [\<lparr>position = (0, 1), carrying = 0\<rparr>,
                             \<lparr>position = (0, 2), carrying = 1\<rparr>]\<rparr>"

definition example_contend_after :: "int env" where
  "example_contend_after =
     \<lparr>grid = [[0, 0, 0], [0, 1, 0]], move_cost = - 1, delivery_reward = 100,
      delay_reward = 10, t = 1,
      robots = [\<lparr>position = (0, 1), carrying = 0\<rparr>, \<lparr>position = (0, 2), carrying = 1\<rparr>],
      packages = [\<lparr>start = (0, 1), start_time = 0, target = (0, 2), deadline = 0,
                   package_id = 1, status = InTransit\<rparr>,
                  \<lparr>start = (0, 1), start_time = 1, target = (0, 0), deadline = 20,
                   package_id = 2, status = Waiting\<rparr>],
      total_reward = - 1, n_robots = 2, max_time_steps = 10, n_packages = 2\<rparr>"

definition example_contend_snapshot :: snapshot where
  "example_contend_snapshot =
     \<lparr>time_step = 1, snapshot_map = [[0, 0, 0], [0, 1, 0]],
      snapshot_robots = [(1, 2, 0), (1, 3, 1)],
      snapshot_packages = [(2, 1, 2, 1, 1, 1, 20)]\<rparr>"

text \<open>Two robots side by side that ask for each other's cell, and the step's result.\<close>

definition example_swap_env :: "int env" where
  "example_swap_env =
     \<lparr>grid = [[0, 0, 0], [0, 1, 0]], move_cost = - 1, delivery_reward = 100,
      delay_reward = 10, t = 3,
      robots = [\<lparr>position = (0, 0), carrying = 0\<rparr>, \<lparr>position = (0, 1), carrying = 0\<rparr>],
      packages = [], total_reward = 0, n_robots = 2, max_time_steps = 10, n_packages = 0\<rparr>"

definition example_swap_snapshot :: snapshot where
  "example_swap_snapshot =
     \<lparr>time_step = 4, snapshot_map = [[0, 0, 0], [0, 1, 0]],
      snapshot_robots = [(1, 1, 0), (1, 2, 0)], snapshot_packages = []\<rparr>"

text \<open>
  From \<open>example_start\<close> the robot goes up onto package 1 and picks it up, then goes right
  onto the target of the package and drops it there.
\<close>

definition example_picked :: "int env" where
  "example_picked =
     \<lparr>grid = [[0, 0, 0], [0, 1, 0]], move_cost = - 1, delivery_reward = 100,
      delay_reward = 10, t = 1,
      robots = [\<lparr>position = (0, 0), carrying = 1\<rparr>],
      packages = [\<lparr>start = (0, 0), start_time = 0, target = (0, 1), deadline = 15,
                   package_id = 1, status = InTransit\<rparr>,
                  \<lparr>start = (0, 2), start_time = 0, target = (1, 0), deadline = 11,
                   package_id = 2, status = Waiting\<rparr>,
                  \<lparr>start = (0, 1), start_time = 8, target = (0, 0), deadline = 22,
                   package_id = 3, status = NoneStatus\<rparr>],
      total_reward = - 1, n_robots = 1, max_time_steps = 10, n_packages = 3\<rparr>"

definition example_picked_snapshot :: snapshot where
  "example_picked_snapshot =
     \<lparr>time_step = 1, snapshot_map = [[0, 0, 0], [0, 1, 0]],
      snapshot_robots = [(1, 1, 1)], snapshot_packages = []\<rparr>"

definition example_dropped :: "int env" where
  "example_dropped =
     \<lparr>grid = [[0, 0, 0], [0, 1, 0]], move_cost = - 1, delivery_reward = 100,
      delay_reward = 10, t = 2,
      robots = [\<lparr>position = (0, 1), carrying = 0\<rparr>],
      packages = [\<lparr>start = (0, 0), start_time = 0, target = (0, 1), deadline = 15,
                   package_id = 1, status = Delivered\<rparr>,
                  \<lparr>start = (0, 2), start_time = 0, target = (1, 0), deadline = 11,
                   package_id = 2, status = Waiting\<rparr>,
                  \<lparr>start = (0, 1), start_time = 8, target = (0, 0), deadline = 22,
                   package_id = 3, status = NoneStatus\<rparr>],
      total_reward = 98, n_robots = 1, max_time_steps = 10, n_packages = 3\<rparr>"

definition example_dropped_snapshot :: snapshot where
  "example_dropped_snapshot =
     \<lparr>time_step = 2, snapshot_map = [[0, 0, 0], [0, 1, 0]],
      snapshot_robots = [(1, 2, 0)], snapshot_packages = []\<rparr>"

text \<open>
  An episode of one tick on the same map: one robot, one package, \<^verbatim>\<open>max_time_steps = 1\<close>.
\<close>

definition short_config :: "int env" where
  "short_config =
     \<lparr>grid = [[0, 0, 0], [0, 1, 0]], move_cost = - 1, delivery_reward = 100,
      delay_reward = 10, t = 0, robots = [], packages = [],
      total_reward = 0, n_robots = 1, max_time_steps = 1, n_packages = 1\<rparr>"

definition short_start :: "int env" where
  "short_start =
     \<lparr>grid = [[0, 0, 0], [0, 1, 0]], move_cost = - 1, delivery_reward = 100,
      delay_reward = 10, t = 0,
      robots = [\<lparr>position = (0, 2), carrying = 0\<rparr>],
      packages = [\<lparr>start = (0, 0), start_time = 0, target = (1, 2), deadline = 12,
                   package_id = 1, status = Waiting\<rparr>],
      total_reward = 0, n_robots = 1, max_time_steps = 1, n_packages = 1\<rparr>"

definition short_start_snapshot :: snapshot where
  "short_start_snapshot =
     \<lparr>time_step = 0, snapshot_map = [[0, 0, 0], [0, 1, 0]],
      snapshot_robots = [(1, 3, 0)], snapshot_packages = [(1, 1, 1, 2, 3, 0, 12)]\<rparr>"

definition short_end :: "int env" where
  "short_end =
     \<lparr>grid = [[0, 0, 0], [0, 1, 0]], move_cost = - 1, delivery_reward = 100,
      delay_reward = 10, t = 1,
      robots = [\<lparr>position = (0, 1), carrying = 0\<rparr>],
      packages = [\<lparr>start = (0, 0), start_time = 0, target = (1, 2), deadline = 12,
                   package_id = 1, status = Waiting\<rparr>],
      total_reward = - 1, n_robots = 1, max_time_steps = 1, n_packages = 1\<rparr>"

definition short_end_snapshot :: snapshot where
  "short_end_snapshot =
     \<lparr>time_step = 1, snapshot_map = [[0, 0, 0], [0, 1, 0]],
      snapshot_robots = [(1, 2, 0)], snapshot_packages = []\<rparr>"

section \<open>The scenarios, evaluated\<close>

lemma example_step:
  "step example_env [(''R'', ''0''), (''S'', ''2'')] =
     Inr (example_env_after, example_snapshot_after, 99, False, [])"
  by code_simp

lemma example_reset:
  "reset example_config example_draws = Inr (example_start, example_start_snapshot, [8, 9])"
  by code_simp

lemma example_generate:
  "generate_packages example_config [0..<nat (n_packages example_config)]
     [0, 1, 4, 2, 2, 3, 5, 1, 0, 3, 7, 8, 9] [] = Inr (example_records, [8, 9])"
  by code_simp

lemma example_contend_movement:
  "movement_phase example_env [(''R'', ''0''), (''L'', ''0'')] = Inr (example_contend_moved, - 1)"
  by code_simp

lemma example_contend_step:
  "step example_env [(''R'', ''0''), (''L'', ''0'')] =
     Inr (example_contend_after, example_contend_snapshot, - 1, False, [])"
  by code_simp

lemma example_swap_proposed:
  "proposed example_swap_env [(''R'', ''0''), (''L'', ''0'')] = Inr [(0, 1), (0, 0)]"
  by code_simp

lemma example_swap_movement:
  "movement_phase example_swap_env [(''R'', ''0''), (''L'', ''0'')] = Inr (example_swap_env, 0)"
  by code_simp

lemma example_swap_step:
  "step example_swap_env [(''R'', ''0''), (''L'', ''0'')] =
     Inr (example_swap_env\<lparr>t := 4\<rparr>, example_swap_snapshot, 0, True,
          [(''total_reward'', Reward 0), (''total_time_steps'', Ticks 4)])"
  by code_simp

lemma example_pick_step:
  "step example_start [(''U'', ''1'')] =
     Inr (example_picked, example_picked_snapshot, - 1, False, [])"
  by code_simp

lemma example_drop_step:
  "step example_picked [(''R'', ''2'')] =
     Inr (example_dropped, example_dropped_snapshot, 99, False, [])"
  by code_simp

lemma short_reset:
  "reset short_config [2, 0, 4, 6] = Inr (short_start, short_start_snapshot, [])"
  by code_simp

lemma short_step:
  "step short_start [(''L'', ''1'')] =
     Inr (short_end, short_end_snapshot, - 1, True,
          [(''total_reward'', Reward (- 1)), (''total_time_steps'', Ticks 1)])"
  by code_simp

section \<open>A wrong number of actions\<close>

text \<open>
  Claim C9. When the action vector's length differs from the number of robots, \<^verbatim>\<open>step\<close>
  raises ValueError at once and the environment at the raise is the environment before
  the call: tick, total reward, robots and packages are all untouched.
\<close>

theorem step_length_mismatch:
  "length actions \<noteq> length (robots e) \<Longrightarrow> step e actions = Inl (ValueError, e)"
  by (simp add: step_def)

theorem step_length_mismatch_witness:
  "length [(''R'', ''0'')] \<noteq> length (robots example_env) \<and>
   step example_env [(''R'', ''0'')] = Inl (ValueError, example_env)"
proof -
  have h: "length [(''R'', ''0'')] \<noteq> length (robots example_env)"
    by (simp add: example_env_def)
  from h step_length_mismatch [OF h] show ?thesis by simp
qed

section \<open>The snapshot\<close>

lemma package_tuple_status [simp]: "package_tuple (p\<lparr>status := s\<rparr>) = package_tuple p"
  by (simp add: package_tuple_def)

lemma get_state_snapshot:
  "get_state e = (e', snap) \<Longrightarrow>
   time_step snap = t e' \<and> snapshot_robots snap = map robot_tuple (robots e') \<and>
   snapshot_packages snap = map package_tuple (filter (\<lambda>p. start_time p = t e') (packages e'))"
  by (auto simp: get_state_def Let_def filter_map o_def)

lemma get_state_revealed: "get_state e = (e', snap) \<Longrightarrow> revealed e' snap"
  unfolding revealed_def using get_state_snapshot [of e e' snap]
  by (auto simp: package_tuple_def)

lemma step_snapshot:
  "step e actions = Inr (e', snap, r, d, infos) \<Longrightarrow> \<exists>e4. get_state e4 = (e', snap)"
  by (auto simp: step_def Let_def split: if_splits sum.splits prod.splits)

lemma reset_snapshot:
  "reset e draws = Inr (e', snap, draws') \<Longrightarrow> \<exists>e2. get_state e2 = (e', snap)"
  by (auto simp: reset_def Let_def split: if_splits sum.splits prod.splits)

text \<open>
  Claim C8. The snapshot that \<^verbatim>\<open>step\<close> or \<^verbatim>\<open>reset\<close> returns for tick \<open>k\<close> lists exactly
  the packages whose \<^verbatim>\<open>start_time\<close> is \<open>k\<close> (a package of the environment is in the list
  if and only if its \<^verbatim>\<open>start_time\<close> is the snapshot's tick, so a package released at tick 5
  is in the snapshot of tick 5 only), and its robot list has every robot.
\<close>

theorem snapshot_progressive_reveal:
  "(step e actions = Inr (e', snap, r, d, infos) \<longrightarrow> revealed e' snap) \<and>
   (reset e0 draws = Inr (e0', snap0, draws') \<longrightarrow> revealed e0' snap0)"
proof (intro conjI impI)
  assume "step e actions = Inr (e', snap, r, d, infos)"
  from step_snapshot [OF this] obtain e4 where "get_state e4 = (e', snap)" ..
  then show "revealed e' snap" by (rule get_state_revealed)
next
  assume "reset e0 draws = Inr (e0', snap0, draws')"
  from reset_snapshot [OF this] obtain e2 where "get_state e2 = (e0', snap0)" ..
  then show "revealed e0' snap0" by (rule get_state_revealed)
qed

theorem snapshot_progressive_reveal_witness:
  "step example_env [(''R'', ''0''), (''S'', ''2'')] =
     Inr (example_env_after, example_snapshot_after, 99, False, []) \<and>
   revealed example_env_after example_snapshot_after \<and>
   snapshot_packages example_snapshot_after = [(2, 1, 2, 1, 1, 1, 20)] \<and>
   reset example_config example_draws = Inr (example_start, example_start_snapshot, [8, 9]) \<and>
   revealed example_start example_start_snapshot \<and>
   snapshot_packages example_start_snapshot = [(1, 1, 1, 1, 2, 0, 15), (2, 1, 3, 2, 1, 0, 11)]"
  using snapshot_progressive_reveal
          [of example_env "[(''R'', ''0''), (''S'', ''2'')]" example_env_after
              example_snapshot_after 99 False "[]" example_config example_draws
              example_start example_start_snapshot "[8, 9]"]
        example_step example_reset
  by (simp add: example_snapshot_after_def example_start_snapshot_def)

section \<open>Moves outside the five symbols\<close>

lemma compute_unknown:
  "move \<notin> {''S'', ''L'', ''R'', ''U'', ''D''} \<Longrightarrow> compute_new_position pos move = pos"
  by (cases pos) (simp add: compute_new_position_def)

lemma propose_cong:
  "\<forall>k. same_effect (as ! k) (bs ! k) \<Longrightarrow> propose e as l acc = propose e bs l acc"
proof (induction e as l acc rule: propose.induct)
  case (1 e actions acc)
  then show ?case by simp
next
  case (2 e actions i rb rest proposed_positions old_pos next_pos)
  from "2.prems" have c: "compute_new_position (position rb) (fst (actions ! i)) =
      compute_new_position (position rb) (fst (bs ! i))"
    unfolding same_effect_def by blast
  show ?case using "2.IH" "2.prems" by (simp add: c Let_def split: sum.splits)
qed

lemma update_positions_cong:
  "\<forall>k. same_effect (as ! k) (bs ! k) \<Longrightarrow>
   update_positions mc as fp l r = update_positions mc bs fp l r"
proof (induction l arbitrary: r)
  case Nil
  then show ?case by simp
next
  case (Cons x l)
  obtain i rb where x: "x = (i, rb)" by (cases x)
  from Cons.prems have s: "same_effect (as ! i) (bs ! i)" by blast
  show ?case using Cons.IH [OF Cons.prems] s unfolding x
    by (simp add: same_effect_def Let_def)
qed

lemma package_actions_cong:
  "\<forall>k. same_effect (as ! k) (bs ! k) \<Longrightarrow>
   package_actions e as l r = package_actions e bs l r"
proof (induction l arbitrary: e r)
  case Nil
  then show ?case by simp
next
  case (Cons i l)
  from Cons.prems have s: "snd (as ! i) = snd (bs ! i)" by (simp add: same_effect_def)
  show ?case using Cons.IH [OF Cons.prems] s
    by (simp split: sum.splits)
qed

lemma step_cong:
  assumes "\<forall>k. same_effect (as ! k) (bs ! k)" "length as = length bs"
  shows "step e as = step e bs"
proof -
  have m: "movement_phase e as = movement_phase e bs"
    unfolding movement_phase_def
    by (simp add: propose_cong [OF assms(1)] update_positions_cong [OF assms(1)]
          split: sum.splits prod.splits)
  show ?thesis unfolding step_def m
    by (simp add: package_actions_cong [OF assms(1)] assms(2) split: sum.splits prod.splits)
qed

text \<open>
  Claim C10. A move symbol outside \<^verbatim>\<open>'S'\<close>, \<^verbatim>\<open>'L'\<close>, \<^verbatim>\<open>'R'\<close>, \<^verbatim>\<open>'U'\<close>, \<^verbatim>\<open>'D'\<close> is
  not rejected: its raw target is the robot's own cell, and the whole step (its result or
  its exception, the positions, the reward and so the absence of a move cost for that
  robot) is the step in which that robot issued \<^verbatim>\<open>'S'\<close> with the same package action.
\<close>

theorem unknown_move_is_stay:
  assumes "move \<notin> {''S'', ''L'', ''R'', ''U'', ''D''}"
  shows "compute_new_position pos move = pos \<and>
         step e (actions[i := (move, pkg_act)]) = step e (actions[i := (''S'', pkg_act)])"
proof -
  have c: "compute_new_position p move = compute_new_position p ''S''" for p
    using assms by (cases p) (simp add: compute_new_position_def)
  have "same_effect ((actions[i := (move, pkg_act)]) ! k)
          ((actions[i := (''S'', pkg_act)]) ! k)" for k
    using assms c by (cases "k = i"; cases "i < length actions")
      (auto simp: same_effect_def list_update_beyond)
  then show ?thesis
    using step_cong [of "actions[i := (move, pkg_act)]" "actions[i := (''S'', pkg_act)]" e]
      compute_unknown [OF assms] by simp
qed

theorem unknown_move_is_stay_witness:
  "''X'' \<notin> {''S'', ''L'', ''R'', ''U'', ''D''} \<and>
   compute_new_position (0, 0) ''X'' = (0, 0) \<and>
   step example_env ([(''R'', ''0''), (''S'', ''2'')][0 := (''X'', ''0'')]) =
   step example_env ([(''R'', ''0''), (''S'', ''2'')][0 := (''S'', ''0'')])"
proof -
  have h: "''X'' \<notin> {''S'', ''L'', ''R'', ''U'', ''D''}" by simp
  from h unknown_move_is_stay [OF h, of "(0, 0)" example_env "[(''R'', ''0''), (''S'', ''2'')]" 0 "''0''"]
  show ?thesis by simp
qed

section \<open>Dropping a package on its target\<close>

lemma py_index_valid:
  "1 \<le> c \<Longrightarrow> c \<le> int (length xs) \<Longrightarrow> py_index xs (c - 1) = Some (nat (c - 1))"
  by (simp add: py_index_def)

text \<open>
  Claim C4. Robot \<open>i\<close> carries package \<open>c\<close> (a valid id, whose record is at index
  \<open>k = c - 1\<close>), stands on that package's target and issues \<^verbatim>\<open>'2'\<close> at tick \<open>t\<close>. Then its
  package action does not raise, adds to the step reward exactly \<^verbatim>\<open>delivery_reward\<close>
  when \<open>t \<le> deadline\<close> and exactly \<^verbatim>\<open>delay_reward\<close> otherwise, sets the package's status
  to delivered and the robot's \<^verbatim>\<open>carrying\<close> to 0.
\<close>

theorem drop_at_target:
  assumes "i < length (robots e)"
    and "1 \<le> carrying (robots e ! i)" and "carrying (robots e ! i) \<le> int (length (packages e))"
    and "k = nat (carrying (robots e ! i) - 1)"
    and "position (robots e ! i) = target (packages e ! k)"
  shows "\<exists>e'. package_action e i ''2'' r =
            Inr (e', if t e \<le> deadline (packages e ! k) then r + delivery_reward e
                     else r + delay_reward e) \<and>
          status (packages e' ! k) = Delivered \<and> carrying (robots e' ! i) = 0"
proof -
  have k: "k < length (packages e)" using assms(2,3,4) by simp
  have "carrying (robots e ! i) \<noteq> 0" using assms(2) by simp
  then show ?thesis
    using assms(1,5) k py_index_valid [OF assms(2,3)] assms(4)
    by (simp add: package_action_def Let_def)
qed

theorem drop_at_target_witness:
  "1 < length (robots example_env) \<and>
   1 \<le> carrying (robots example_env ! 1) \<and>
   carrying (robots example_env ! 1) \<le> int (length (packages example_env)) \<and>
   0 = nat (carrying (robots example_env ! 1) - 1) \<and>
   position (robots example_env ! 1) = target (packages example_env ! 0) \<and>
   t example_env \<le> deadline (packages example_env ! 0) \<and>
   (\<exists>e'. package_action example_env 1 ''2'' 0 = Inr (e', 100) \<and>
         status (packages e' ! 0) = Delivered \<and> carrying (robots e' ! 1) = 0)"
  using drop_at_target [of 1 example_env 0 0]
  by (simp add: example_env_def)

section \<open>Release times at reset\<close>

lemma randint_range:
  "randint low high draws = Inr (x, draws') \<Longrightarrow> low \<le> x \<and> x < high"
proof -
  assume a: "randint low high draws = Inr (x, draws')"
  then have lt: "low < high" by (auto simp: randint_def split: if_splits)
  from a obtain y where x: "x = low + y mod (high - low)"
    by (auto simp: randint_def split: if_splits list.splits)
  have "0 \<le> y mod (high - low)" "y mod (high - low) < high - low"
    using lt by simp_all
  with x show ?thesis by simp
qed

lemma generate_packages_spawn:
  "generate_packages e is draws acc = Inr (lp, draws') \<Longrightarrow>
   \<exists>new. lp = acc @ new \<and> length new = length is \<and>
     (\<forall>m < length is.
        (if int (is ! m) \<le> min (n_robots e) 20 then fst (new ! m) = 0
         else 1 \<le> fst (new ! m) \<and> fst (new ! m) \<le> max_time_steps e - 1))"
proof (induction "is" arbitrary: draws acc)
  case Nil
  then show ?case by simp
next
  case (Cons i rest)
  from Cons.prems obtain sc tc x d3 st d4 where
    st: "(if int i \<le> min (n_robots e) 20 then Inr (0, d3)
          else randint 1 (max_time_steps e) d3) = Inr (st, d4)"
    and rec: "generate_packages e rest d4 (acc @ [(st, sc, tc, st + (10 + x))]) = Inr (lp, draws')"
    by (auto simp: Let_def split: sum.splits)
  from Cons.IH [OF rec] obtain new where
    new: "lp = (acc @ [(st, sc, tc, st + (10 + x))]) @ new" "length new = length rest"
      "\<forall>m < length rest.
        (if int (rest ! m) \<le> min (n_robots e) 20 then fst (new ! m) = 0
         else 1 \<le> fst (new ! m) \<and> fst (new ! m) \<le> max_time_steps e - 1)"
    by blast
  have hd: "if int i \<le> min (n_robots e) 20 then st = 0
            else 1 \<le> st \<and> st \<le> max_time_steps e - 1"
    using st randint_range [of 1 "max_time_steps e" d3 st d4] by (auto split: if_splits)
  let ?new = "(st, sc, tc, st + (10 + x)) # new"
  have "lp = acc @ ?new" using new(1) by simp
  moreover have "length ?new = length (i # rest)" using new(2) by simp
  moreover have "\<forall>m < length (i # rest).
        (if int ((i # rest) ! m) \<le> min (n_robots e) 20 then fst (?new ! m) = 0
         else 1 \<le> fst (?new ! m) \<and> fst (?new ! m) \<le> max_time_steps e - 1)"
  proof (intro allI impI)
    fix m assume "m < length (i # rest)"
    then show "if int ((i # rest) ! m) \<le> min (n_robots e) 20 then fst (?new ! m) = 0
         else 1 \<le> fst (?new ! m) \<and> fst (?new ! m) \<le> max_time_steps e - 1"
      using hd new(3) by (cases m) auto
  qed
  ultimately show ?case by blast
qed

text \<open>
  Claim C3, as the code has it. The package loop of \<^verbatim>\<open>reset\<close> tests
  \<^verbatim>\<open>i <= min(self.n_robots, 20)\<close> on the 0-based generation index \<open>i\<close>: the packages with
  \<open>i \<le> min(R, 20)\<close>, which are the first \<open>min(R, 20) + 1\<close>, get \<^verbatim>\<open>start_time = 0\<close>, and these
  are the only ones, since every other package gets what \<^verbatim>\<open>randint(1, T)\<close> returns, a
  value from 1 to \<open>T - 1\<close>.
\<close>

theorem spawn_times:
  assumes "generate_packages e [0..<nat (n_packages e)] draws [] = Inr (lp, draws')"
  shows "length lp = nat (n_packages e) \<and>
         (\<forall>i < nat (n_packages e).
            (fst (lp ! i) = 0 \<longleftrightarrow> int i \<le> min (n_robots e) 20) \<and>
            (\<not> int i \<le> min (n_robots e) 20 \<longrightarrow>
               1 \<le> fst (lp ! i) \<and> fst (lp ! i) \<le> max_time_steps e - 1))"
proof -
  from generate_packages_spawn [OF assms] obtain new where
    new: "lp = new" "length new = nat (n_packages e)"
      "\<forall>m < nat (n_packages e).
        (if int ([0..<nat (n_packages e)] ! m) \<le> min (n_robots e) 20 then fst (new ! m) = 0
         else 1 \<le> fst (new ! m) \<and> fst (new ! m) \<le> max_time_steps e - 1)"
    by auto
  have "\<forall>i < nat (n_packages e).
            (fst (lp ! i) = 0 \<longleftrightarrow> int i \<le> min (n_robots e) 20) \<and>
            (\<not> int i \<le> min (n_robots e) 20 \<longrightarrow>
               1 \<le> fst (lp ! i) \<and> fst (lp ! i) \<le> max_time_steps e - 1)"
  proof (intro allI impI)
    fix i assume i: "i < nat (n_packages e)"
    with new(3) have "if int i \<le> min (n_robots e) 20 then fst (new ! i) = 0
         else 1 \<le> fst (new ! i) \<and> fst (new ! i) \<le> max_time_steps e - 1"
      by (auto split: if_splits)
    then show "(fst (lp ! i) = 0 \<longleftrightarrow> int i \<le> min (n_robots e) 20) \<and>
            (\<not> int i \<le> min (n_robots e) 20 \<longrightarrow>
               1 \<le> fst (lp ! i) \<and> fst (lp ! i) \<le> max_time_steps e - 1)"
      using new(1) by (auto split: if_splits)
  qed
  with new(1,2) show ?thesis by simp
qed

theorem spawn_times_witness:
  "generate_packages example_config [0..<nat (n_packages example_config)]
     [0, 1, 4, 2, 2, 3, 5, 1, 0, 3, 7, 8, 9] [] = Inr (example_records, [8, 9]) \<and>
   length example_records = 3 \<and>
   fst (example_records ! 0) = 0 \<and> fst (example_records ! 1) = 0 \<and>
   1 \<le> fst (example_records ! 2) \<and> fst (example_records ! 2) \<le> 9"
  using spawn_times [OF example_generate] example_generate
  by (simp add: example_config_def example_records_def)

text \<open>
  The claim's own count fails: with one robot, the package of generation index 1 is not
  among the first \<open>min(1, 20) = 1\<close> packages, and its \<^verbatim>\<open>start_time\<close> is 0 all the same.
\<close>

theorem spawn_times_counterexample:
  "generate_packages example_config [0..<nat (n_packages example_config)]
     [0, 1, 4, 2, 2, 3, 5, 1, 0, 3, 7, 8, 9] [] = Inr (example_records, [8, 9]) \<and>
   n_robots example_config = 1 \<and> \<not> (1::int) < min (n_robots example_config) 20 \<and>
   fst (example_records ! 1) = 0"
  using example_generate by (simp add: example_config_def example_records_def)

section \<open>The movement resolution: loop invariants\<close>

lemma decide_basic:
  assumes "resolver_basic rs pp st" "i < length rs"
  shows "\<exists>st'. decide st i (position (rs ! i)) (pp ! i) = Inr (st', True) \<and>
               resolver_basic rs pp st' \<and>
               computed_moved st' = (computed_moved st)[i := 1]"
proof (cases "occupied st (pp ! i) = None")
  case True
  then show ?thesis using assms
    by (auto simp: decide_def resolver_basic_def nth_list_update)
next
  case False
  then show ?thesis using assms
    by (auto simp: decide_def resolver_basic_def nth_list_update)
qed

lemma scan_cases:
  "scan rs pp old_pos st is = Inr (st', u) \<Longrightarrow>
   (st' = st \<and> \<not> u) \<or>
   (\<exists>i \<in> set is. decidable rs pp old_pos st i \<and>
       decide st i (position (rs ! i)) (pp ! i) = Inr (st', u))"
proof (induction "is")
  case Nil
  then show ?case by simp
next
  case (Cons i rest)
  then show ?case
    by (auto simp: Let_def decidable_def split: if_splits option.splits)
qed

lemma scan_total:
  assumes "resolver_basic rs pp st" "length pp = length rs" "old_pos_bounded rs old_pos"
    "set is \<subseteq> {..<length rs}"
  shows "\<exists>res. scan rs pp old_pos st is = Inr res"
  using assms(4)
proof (induction "is")
  case Nil
  show ?case by (simp del: split_paired_Ex)
next
  case (Cons i rest)
  then have i: "i < length rs" and r: "set rest \<subseteq> {..<length rs}" by simp_all
  from Cons.IH [OF r] obtain res where s: "scan rs pp old_pos st rest = Inr res" by blast
  from decide_basic [OF assms(1) i] obtain st2 where
    d: "decide st i (position (rs ! i)) (pp ! i) = Inr (st2, True)" by blast
  have len: "length (computed_moved st) = length rs" using assms(1) by (simp add: resolver_basic_def)
  have b: "\<And>j. old_pos (pp ! i) = Some j \<Longrightarrow> j < length rs"
    using assms(3) unfolding old_pos_bounded_def by blast
  have "scan rs pp old_pos st (i # rest) = scan rs pp old_pos st rest \<or>
        scan rs pp old_pos st (i # rest) = decide st i (position (rs ! i)) (pp ! i)"
    using i len assms(2) b by (auto simp: Let_def split: option.splits)
  with s d show ?case by metis
qed

lemma resolve_loop_rule:
  "I st \<Longrightarrow>
   (\<forall>s. I s \<longrightarrow> (\<exists>s' u. scan rs pp old_pos s [0..<length rs] = Inr (s', u) \<and> I s')) \<Longrightarrow>
   \<exists>st'. resolve_loop rs pp old_pos st = Inr st' \<and> I st'"
proof (induction rs pp old_pos st rule: resolve_loop.induct)
  case (1 rs pp old_pos st)
  from "1.prems" obtain s' u where
    s: "scan rs pp old_pos st [0..<length rs] = Inr (s', u)" and i: "I s'" by blast
  show ?case
  proof (cases u)
    case True
    from "1.IH" [OF s refl True i "1.prems"(2)] s True show ?thesis by simp
  next
    case False
    with s i show ?thesis by simp
  qed
qed

lemma decide_occ:
  assumes b: "resolver_basic rs pp st" and o: "resolver_occ rs st"
    and d: "distinct (map position rs)"
    and i: "i < length rs" and ci: "computed_moved st ! i = 0"
    and free: "\<forall>k < length rs. position (rs ! k) = pp ! i \<longrightarrow> k = i \<or> computed_moved st ! k \<noteq> 0"
    and dec: "decide st i (position (rs ! i)) (pp ! i) = Inr (st', u)"
  shows "resolver_occ rs st'"
proof -
  have len: "length (computed_moved st) = length rs" "length (final_positions st) = length rs"
    using b by (simp_all add: resolver_basic_def)
  have O: "\<And>c. occupied st c \<noteq> None \<longleftrightarrow>
        (\<exists>j < length rs. computed_moved st ! j \<noteq> 0 \<and> final_positions st ! j = Some c)"
    using o unfolding resolver_occ_def by blast
  have D: "\<And>j k. j < length rs \<Longrightarrow> k < length rs \<Longrightarrow> j \<noteq> k \<Longrightarrow>
        computed_moved st ! j \<noteq> 0 \<Longrightarrow> computed_moved st ! k \<noteq> 0 \<Longrightarrow>
        final_positions st ! j \<noteq> final_positions st ! k"
    using o unfolding resolver_occ_def by blast
  have U: "\<And>k. k < length rs \<Longrightarrow> computed_moved st ! k = 0 \<Longrightarrow>
        occupied st (position (rs ! k)) = None"
    using o unfolding resolver_occ_def by blast
  have pos_inj: "j = k" if "j < length rs" "k < length rs"
        "position (rs ! j) = position (rs ! k)" for j k
    using nth_eq_iff_index_eq [OF d, of j k] that by simp
  define c where "c = (if occupied st (pp ! i) = None then pp ! i else position (rs ! i))"
  have st': "occupied st' = (occupied st)(c \<mapsto> i)"
    "final_positions st' = (final_positions st)[i := Some c]"
    "computed_moved st' = (computed_moved st)[i := 1]"
    using dec i len b unfolding c_def
    by (auto simp: decide_def resolver_basic_def split: if_splits)
  have cfree: "occupied st c = None"
    unfolding c_def using U [OF i ci] by auto
  have cother: "\<And>k. k < length rs \<Longrightarrow> k \<noteq> i \<Longrightarrow> computed_moved st ! k = 0 \<Longrightarrow>
        position (rs ! k) \<noteq> c"
  proof -
    fix k assume k: "k < length rs" "k \<noteq> i" "computed_moved st ! k = 0"
    show "position (rs ! k) \<noteq> c"
    proof (cases "occupied st (pp ! i) = None")
      case True
      then have "c = pp ! i" by (simp add: c_def)
      with free k show ?thesis by auto
    next
      case False
      then have "c = position (rs ! i)" by (auto simp: c_def)
      with pos_inj [OF k(1) i] k(2) show ?thesis by auto
    qed
  qed
  have notc: "\<And>j. j < length rs \<Longrightarrow> computed_moved st ! j \<noteq> 0 \<Longrightarrow>
        final_positions st ! j \<noteq> Some c"
    using cfree O by blast
  show ?thesis
    unfolding resolver_occ_def
  proof (intro conjI allI impI)
    fix c'
    show "occupied st' c' \<noteq> None \<longleftrightarrow>
        (\<exists>j < length rs. computed_moved st' ! j \<noteq> 0 \<and> final_positions st' ! j = Some c')"
    proof (cases "c' = c")
      case True
      have "computed_moved st' ! i \<noteq> 0 \<and> final_positions st' ! i = Some c"
        using i len by (simp add: st')
      with True i show ?thesis by (auto simp: st'(1))
    next
      case False
      have "(\<exists>j < length rs. computed_moved st' ! j \<noteq> 0 \<and> final_positions st' ! j = Some c') \<longleftrightarrow>
            (\<exists>j < length rs. computed_moved st ! j \<noteq> 0 \<and> final_positions st ! j = Some c')"
        using False ci i len by (auto simp: st' nth_list_update split: if_splits)
      with False O [of c'] show ?thesis by (simp add: st'(1))
    qed
  next
    fix j k
    assume a: "j < length rs" "k < length rs"
      "j \<noteq> k \<and> computed_moved st' ! j \<noteq> 0 \<and> computed_moved st' ! k \<noteq> 0"
    show "final_positions st' ! j \<noteq> final_positions st' ! k"
    proof (cases "j = i")
      case True
      with a have "k \<noteq> i" "computed_moved st ! k \<noteq> 0"
        using len by (auto simp: st' nth_list_update split: if_splits)
      with notc [OF a(2)] True a len show ?thesis by (auto simp: st' nth_list_update)
    next
      case False
      note ji = this
      show ?thesis
      proof (cases "k = i")
        case True
        with a ji have "computed_moved st ! j \<noteq> 0"
          using len by (auto simp: st' nth_list_update split: if_splits)
        with notc [OF a(1)] True a len ji show ?thesis by (auto simp: st' nth_list_update)
      next
        case False
        with ji a len D [of j k] show ?thesis by (auto simp: st' nth_list_update)
      qed
    qed
  next
    fix k assume k: "k < length rs" "computed_moved st' ! k = 0"
    then have ki: "k \<noteq> i" using i len by (auto simp: st')
    with k have ck: "computed_moved st ! k = 0" by (simp add: st')
    from cother [OF k(1) ki ck] U [OF k(1) ck]
    show "occupied st' (position (rs ! k)) = None" by (simp add: st'(1))
  qed
qed

lemma old_pos_exact_bounded: "old_pos_exact rs old_pos \<Longrightarrow> old_pos_bounded rs old_pos"
  unfolding old_pos_exact_def old_pos_bounded_def by blast

lemma decidable_free:
  assumes "old_pos_exact rs old_pos" "decidable rs pp old_pos st i"
  shows "\<forall>k < length rs. position (rs ! k) = pp ! i \<longrightarrow> k = i \<or> computed_moved st ! k \<noteq> 0"
proof (intro allI impI)
  fix k assume k: "k < length rs" "position (rs ! k) = pp ! i"
  with assms(1) have "old_pos (pp ! i) = Some k"
    unfolding old_pos_exact_def by blast
  with assms(2) show "k = i \<or> computed_moved st ! k \<noteq> 0"
    by (simp add: decidable_def)
qed

lemma scan_basic:
  assumes "resolver_basic rs pp st" "scan rs pp old_pos st is = Inr (st', u)"
  shows "resolver_basic rs pp st'"
proof -
  from scan_cases [OF assms(2)] show ?thesis
  proof
    assume "st' = st \<and> \<not> u"
    with assms(1) show ?thesis by simp
  next
    assume "\<exists>i \<in> set is. decidable rs pp old_pos st i \<and>
       decide st i (position (rs ! i)) (pp ! i) = Inr (st', u)"
    then obtain i where i: "decidable rs pp old_pos st i"
      and d: "decide st i (position (rs ! i)) (pp ! i) = Inr (st', u)" by blast
    from i have "i < length rs" by (simp add: decidable_def)
    from decide_basic [OF assms(1) this] d show ?thesis by auto
  qed
qed

lemma scan_occ:
  assumes "resolver_basic rs pp st" "resolver_occ rs st" "distinct (map position rs)"
    "old_pos_exact rs old_pos" "scan rs pp old_pos st is = Inr (st', u)"
  shows "resolver_occ rs st'"
proof -
  from scan_cases [OF assms(5)] show ?thesis
  proof
    assume "st' = st \<and> \<not> u"
    with assms(2) show ?thesis by simp
  next
    assume "\<exists>i \<in> set is. decidable rs pp old_pos st i \<and>
       decide st i (position (rs ! i)) (pp ! i) = Inr (st', u)"
    then obtain i where i: "decidable rs pp old_pos st i"
      and d: "decide st i (position (rs ! i)) (pp ! i) = Inr (st', u)" by blast
    from i have il: "i < length rs" and ci: "computed_moved st ! i = 0"
      by (simp_all add: decidable_def)
    from decide_occ [OF assms(1,2,3) il ci decidable_free [OF assms(4) i] d]
    show ?thesis .
  qed
qed

text \<open>What a pass leaves alone: a robot that is not decidable stays undecided.\<close>

lemma scan_keeps_undecided:
  assumes "resolver_basic rs pp st" "scan rs pp old_pos st is = Inr (st', u)"
    "k < length rs" "computed_moved st ! k = 0" "\<not> decidable rs pp old_pos st k"
  shows "computed_moved st' ! k = 0"
proof -
  from scan_cases [OF assms(2)] show ?thesis
  proof
    assume "st' = st \<and> \<not> u"
    with assms(4) show ?thesis by simp
  next
    assume "\<exists>i \<in> set is. decidable rs pp old_pos st i \<and>
       decide st i (position (rs ! i)) (pp ! i) = Inr (st', u)"
    then obtain i where i: "decidable rs pp old_pos st i"
      and d: "decide st i (position (rs ! i)) (pp ! i) = Inr (st', u)" by blast
    from i assms(5) have ik: "i \<noteq> k" by blast
    from i have "i < length rs" by (simp add: decidable_def)
    from decide_basic [OF assms(1) this] d
    have "computed_moved st' = (computed_moved st)[i := 1]" by auto
    with ik assms(4) show ?thesis by simp
  qed
qed

lemma default_unresolved_result:
  assumes "length (computed_moved st) = length rs" "length (final_positions st) = length rs"
    "set is \<subseteq> {..<length rs}"
  shows "\<exists>st'. default_unresolved rs st is = Inr st' \<and>
           computed_moved st' = computed_moved st \<and>
           length (final_positions st') = length rs \<and>
           (\<forall>i < length rs. final_positions st' ! i =
              (if i \<in> set is \<and> computed_moved st ! i = 0 then Some (position (rs ! i))
               else final_positions st ! i))"
  using assms
proof (induction "is" arbitrary: st)
  case Nil
  then show ?case by simp
next
  case (Cons i rest)
  then have i: "i < length rs" and r: "set rest \<subseteq> {..<length rs}" by simp_all
  show ?case
  proof (cases "computed_moved st ! i = 0")
    case True
    let ?st = "st\<lparr>final_positions := (final_positions st)[i := Some (position (rs ! i))]\<rparr>"
    have "length (computed_moved ?st) = length rs" "length (final_positions ?st) = length rs"
      using Cons.prems by simp_all
    from Cons.IH [OF this r] obtain st' where
      st': "default_unresolved rs ?st rest = Inr st'"
        "computed_moved st' = computed_moved st"
        "length (final_positions st') = length rs"
        "\<forall>k < length rs. final_positions st' ! k =
              (if k \<in> set rest \<and> computed_moved st ! k = 0 then Some (position (rs ! k))
               else final_positions ?st ! k)"
      by auto
    have "default_unresolved rs st (i # rest) = Inr st'"
      using True i Cons.prems st'(1) by simp
    moreover have "\<forall>k < length rs. final_positions st' ! k =
              (if k \<in> set (i # rest) \<and> computed_moved st ! k = 0 then Some (position (rs ! k))
               else final_positions st ! k)"
      using st'(4) True i Cons.prems(2) by (auto simp: nth_list_update)
    ultimately show ?thesis using st'(2,3) by blast
  next
    case False
    from Cons.IH [OF Cons.prems(1,2) r] obtain st' where
      st': "default_unresolved rs st rest = Inr st'"
        "computed_moved st' = computed_moved st"
        "length (final_positions st') = length rs"
        "\<forall>k < length rs. final_positions st' ! k =
              (if k \<in> set rest \<and> computed_moved st ! k = 0 then Some (position (rs ! k))
               else final_positions st ! k)"
      by auto
    have "default_unresolved rs st (i # rest) = Inr st'"
      using False i Cons.prems st'(1) by simp
    moreover have "\<forall>k < length rs. final_positions st' ! k =
              (if k \<in> set (i # rest) \<and> computed_moved st ! k = 0 then Some (position (rs ! k))
               else final_positions st ! k)"
      using st'(4) False by auto
    ultimately show ?thesis using st'(2,3) by blast
  qed
qed

lemma those_map_Some: "those (map Some xs) = Some xs"
  by (induction xs) simp_all

lemma those_all_Some:
  assumes "\<forall>i < length xs. xs ! i = Some (f i)"
  shows "those xs = Some (map f [0..<length xs])"
proof -
  have "xs = map Some (map f [0..<length xs])"
    using assms by (intro nth_equalityI) simp_all
  then have "those xs = those (map Some (map f [0..<length xs]))" by simp
  then show ?thesis by (simp only: those_map_Some)
qed

lemma initial_basic: "resolver_basic rs pp (initial_resolver (length rs))"
  by (simp add: resolver_basic_def initial_resolver_def)

lemma initial_occ: "resolver_occ rs (initial_resolver (length rs))"
  by (simp add: resolver_occ_def initial_resolver_def)

lemma resolve_movement_rule:
  assumes len: "length pp = length rs" and bounded: "old_pos_bounded rs old_pos"
    and I0: "I (initial_resolver (length rs))"
    and pass: "\<And>s s' u. resolver_basic rs pp s \<Longrightarrow> I s \<Longrightarrow>
             scan rs pp old_pos s [0..<length rs] = Inr (s', u) \<Longrightarrow> I s'"
  shows "\<exists>st fp. resolver_basic rs pp st \<and> I st \<and>
           resolve_movement rs pp old_pos = Inr fp \<and> length fp = length rs \<and>
           (\<forall>i < length rs. fp ! i = settled rs st i)"
proof -
  let ?J = "\<lambda>s. resolver_basic rs pp s \<and> I s"
  have J0: "?J (initial_resolver (length rs))" using initial_basic I0 by blast
  have Jpass: "\<forall>s. ?J s \<longrightarrow> (\<exists>s' u. scan rs pp old_pos s [0..<length rs] = Inr (s', u) \<and> ?J s')"
  proof (intro allI impI)
    fix s assume J: "?J s"
    then have b: "resolver_basic rs pp s" and i: "I s" by simp_all
    have "set [0..<length rs] \<subseteq> {..<length rs}" by auto
    from scan_total [OF b len bounded this] obtain s' u where
      s: "scan rs pp old_pos s [0..<length rs] = Inr (s', u)" by force
    from scan_basic [OF b s] pass [OF b i s] s
    show "\<exists>s' u. scan rs pp old_pos s [0..<length rs] = Inr (s', u) \<and> ?J s'" by blast
  qed
  from resolve_loop_rule [of ?J, OF J0 Jpass] obtain st where
    loop: "resolve_loop rs pp old_pos (initial_resolver (length rs)) = Inr st"
    and b: "resolver_basic rs pp st" and i: "I st" by blast
  have lens: "length (computed_moved st) = length rs" "length (final_positions st) = length rs"
    using b by (simp_all add: resolver_basic_def)
  have "set [0..<length rs] \<subseteq> {..<length rs}" by auto
  from default_unresolved_result [OF lens this] obtain st' where
    st': "default_unresolved rs st [0..<length rs] = Inr st'"
      "length (final_positions st') = length rs"
      "\<forall>i < length rs. final_positions st' ! i =
              (if i \<in> set [0..<length rs] \<and> computed_moved st ! i = 0
               then Some (position (rs ! i)) else final_positions st ! i)"
    by blast
  have "\<forall>i < length (final_positions st'). final_positions st' ! i = Some (settled rs st i)"
  proof (intro allI impI)
    fix k assume "k < length (final_positions st')"
    then have k: "k < length rs" using st'(2) by simp
    show "final_positions st' ! k = Some (settled rs st k)"
    proof (cases "computed_moved st ! k = 0")
      case True
      with st'(3) k show ?thesis by (simp add: settled_def)
    next
      case False
      with b k have "\<exists>c. final_positions st ! k = Some c"
        unfolding resolver_basic_def by blast
      with st'(3) k False show ?thesis by (auto simp: settled_def)
    qed
  qed
  from those_all_Some [OF this]
  have th: "those (final_positions st') = Some (map (settled rs st) [0..<length rs])"
    using st'(2) by simp
  have "resolve_movement rs pp old_pos = Inr (map (settled rs st) [0..<length rs])"
    using loop st'(1) th
    by (simp add: resolve_movement_def initial_resolver_def Let_def)
  with b i show ?thesis by auto
qed

lemma resolve_movement_total:
  assumes "length pp = length rs" "old_pos_bounded rs old_pos"
  shows "\<exists>fp. resolve_movement rs pp old_pos = Inr fp \<and> length fp = length rs \<and>
           (\<forall>i < length rs. fp ! i = position (rs ! i) \<or> fp ! i = pp ! i)"
proof -
  have "\<exists>st fp. resolver_basic rs pp st \<and> True \<and>
           resolve_movement rs pp old_pos = Inr fp \<and> length fp = length rs \<and>
           (\<forall>i < length rs. fp ! i = settled rs st i)"
    by (rule resolve_movement_rule [where I = "\<lambda>s. True", OF assms]) simp_all
  then obtain st fp where
    r: "resolver_basic rs pp st" "resolve_movement rs pp old_pos = Inr fp" "length fp = length rs"
       "\<forall>i < length rs. fp ! i = settled rs st i"
    by auto
  have "\<forall>i < length rs. fp ! i = position (rs ! i) \<or> fp ! i = pp ! i"
  proof (intro allI impI)
    fix i assume i: "i < length rs"
    with r(1) have "computed_moved st ! i \<noteq> 0 \<longrightarrow>
        final_positions st ! i = Some (position (rs ! i)) \<or>
        final_positions st ! i = Some (pp ! i)"
      unfolding resolver_basic_def by blast
    with r(4) i show "fp ! i = position (rs ! i) \<or> fp ! i = pp ! i"
      by (auto simp: settled_def)
  qed
  with r show ?thesis by blast
qed

lemma resolve_movement_distinct:
  assumes len: "length pp = length rs" and ex: "old_pos_exact rs old_pos"
    and d: "distinct (map position rs)"
  shows "\<exists>fp. resolve_movement rs pp old_pos = Inr fp \<and> length fp = length rs \<and> distinct fp"
proof -
  have "\<exists>st fp. resolver_basic rs pp st \<and> resolver_occ rs st \<and>
           resolve_movement rs pp old_pos = Inr fp \<and> length fp = length rs \<and>
           (\<forall>i < length rs. fp ! i = settled rs st i)"
  proof (rule resolve_movement_rule [where I = "resolver_occ rs",
        OF len old_pos_exact_bounded [OF ex] initial_occ])
    fix s s' u
    assume "resolver_basic rs pp s" "resolver_occ rs s"
      "scan rs pp old_pos s [0..<length rs] = Inr (s', u)"
    then show "resolver_occ rs s'" using scan_occ [OF _ _ d ex] by blast
  qed
  then obtain st fp where
    r: "resolver_basic rs pp st" "resolver_occ rs st"
       "resolve_movement rs pp old_pos = Inr fp" "length fp = length rs"
       "\<forall>i < length rs. fp ! i = settled rs st i"
    by auto
  have O: "\<And>c. occupied st c \<noteq> None \<longleftrightarrow>
        (\<exists>j < length rs. computed_moved st ! j \<noteq> 0 \<and> final_positions st ! j = Some c)"
    using r(2) unfolding resolver_occ_def by blast
  have D: "\<And>j k. j < length rs \<Longrightarrow> k < length rs \<Longrightarrow> j \<noteq> k \<Longrightarrow>
        computed_moved st ! j \<noteq> 0 \<Longrightarrow> computed_moved st ! k \<noteq> 0 \<Longrightarrow>
        final_positions st ! j \<noteq> final_positions st ! k"
    using r(2) unfolding resolver_occ_def by blast
  have U: "\<And>k. k < length rs \<Longrightarrow> computed_moved st ! k = 0 \<Longrightarrow>
        occupied st (position (rs ! k)) = None"
    using r(2) unfolding resolver_occ_def by blast
  have S: "\<And>k. k < length rs \<Longrightarrow> computed_moved st ! k \<noteq> 0 \<Longrightarrow>
        final_positions st ! k = Some (settled rs st k)"
    using r(1) unfolding resolver_basic_def settled_def by auto
  have ne: "settled rs st j \<noteq> settled rs st k"
    if jk: "j < length rs" "k < length rs" "j \<noteq> k" for j k
  proof (cases "computed_moved st ! j = 0")
    case True
    note cj = this
    show ?thesis
    proof (cases "computed_moved st ! k = 0")
      case True
      with cj jk nth_eq_iff_index_eq [OF d, of j k] show ?thesis
        by (simp add: settled_def)
    next
      case False
      from S [OF jk(2) False] O [of "settled rs st k"] jk(2) False
      have "occupied st (settled rs st k) \<noteq> None" by blast
      with U [OF jk(1) cj] cj show ?thesis by (auto simp: settled_def)
    qed
  next
    case False
    note cj = this
    show ?thesis
    proof (cases "computed_moved st ! k = 0")
      case True
      from S [OF jk(1) cj] O [of "settled rs st j"] jk(1) cj
      have "occupied st (settled rs st j) \<noteq> None" by blast
      with U [OF jk(2) True] True show ?thesis by (auto simp: settled_def)
    next
      case False
      from D [OF jk cj False] S [OF jk(1) cj] S [OF jk(2) False] show ?thesis by auto
    qed
  qed
  have "distinct fp"
    unfolding distinct_conv_nth using r(4,5) ne by auto
  with r show ?thesis by blast
qed

lemma old_pos_exact_at:
  assumes "old_pos_exact rs old_pos" "j < length rs"
  shows "old_pos (position (rs ! j)) = Some j"
proof -
  from assms(1) have "old_pos (position (rs ! j)) = Some j \<longleftrightarrow>
      j < length rs \<and> position (rs ! j) = position (rs ! j)"
    unfolding old_pos_exact_def by (rule allE [where x = "position (rs ! j)"]) (erule allE)
  with assms(2) show ?thesis by simp
qed

lemma resolve_movement_swap:
  assumes len: "length pp = length rs" and ex: "old_pos_exact rs old_pos"
    and a: "a < length rs" and b: "b < length rs"
    and ab: "pp ! a = position (rs ! b)" and ba: "pp ! b = position (rs ! a)"
  shows "\<exists>fp. resolve_movement rs pp old_pos = Inr fp \<and>
           fp ! a = position (rs ! a) \<and> fp ! b = position (rs ! b)"
proof (cases "a = b")
  case True
  from resolve_movement_total [OF len old_pos_exact_bounded [OF ex]] a ab True
  show ?thesis by auto
next
  case False
  let ?I = "\<lambda>s. computed_moved s ! a = 0 \<and> computed_moved s ! b = 0"
  have opa: "old_pos (pp ! a) = Some b" and opb: "old_pos (pp ! b) = Some a"
    using old_pos_exact_at [OF ex b] old_pos_exact_at [OF ex a] ab ba by simp_all
  have I0: "?I (initial_resolver (length rs))" using a b by (simp add: initial_resolver_def)
  have "\<exists>st fp. resolver_basic rs pp st \<and> ?I st \<and>
           resolve_movement rs pp old_pos = Inr fp \<and> length fp = length rs \<and>
           (\<forall>i < length rs. fp ! i = settled rs st i)"
  proof (rule resolve_movement_rule [where I = ?I, OF len old_pos_exact_bounded [OF ex] I0])
    fix s s' u
    assume bs: "resolver_basic rs pp s" and I: "?I s"
      and sc: "scan rs pp old_pos s [0..<length rs] = Inr (s', u)"
    have na: "\<not> decidable rs pp old_pos s a" using opa I False by (simp add: decidable_def)
    have nb: "\<not> decidable rs pp old_pos s b" using opb I False by (simp add: decidable_def)
    from scan_keeps_undecided [OF bs sc a _ na] scan_keeps_undecided [OF bs sc b _ nb] I
    show "?I s'" by simp
  qed
  then obtain st fp where
    r: "?I st" "resolve_movement rs pp old_pos = Inr fp"
       "\<forall>i < length rs. fp ! i = settled rs st i"
    by auto
  with a b show ?thesis by (auto simp: settled_def)
qed

lemma propose_result:
  "propose e actions (enumerate k rs) (pp0, op0, np0) = Inr (pp, old_pos, np) \<Longrightarrow>
   length pp = length pp0 + length rs \<and>
   (\<forall>c j. old_pos c = Some j \<longrightarrow>
      op0 c = Some j \<or> (k \<le> j \<and> j < k + length rs \<and> position (rs ! (j - k)) = c)) \<and>
   (\<forall>c. c \<notin> set (map position rs) \<longrightarrow> old_pos c = op0 c) \<and>
   (distinct (map position rs) \<longrightarrow>
      (\<forall>m < length rs. old_pos (position (rs ! m)) = Some (k + m)))"
proof (induction rs arbitrary: k pp0 op0 np0)
  case Nil
  then show ?case by simp
next
  case (Cons x xs)
  from Cons.prems obtain pp1 np1 where
    rec: "propose e actions (enumerate (Suc k) xs) (pp0 @ [pp1], op0(position x \<mapsto> k), np1) =
            Inr (pp, old_pos, np)"
    by (auto simp: Let_def split: sum.splits)
  note IH = Cons.IH [OF rec]
  from IH have len: "length pp = length pp0 + length (x # xs)" by simp
  from IH have A: "\<And>c j. old_pos c = Some j \<Longrightarrow>
      (op0(position x \<mapsto> k)) c = Some j \<or>
      (Suc k \<le> j \<and> j < Suc k + length xs \<and> position (xs ! (j - Suc k)) = c)"
    by blast
  from IH have B: "\<And>c. c \<notin> set (map position xs) \<Longrightarrow> old_pos c = (op0(position x \<mapsto> k)) c"
    by blast
  from IH have C: "distinct (map position xs) \<Longrightarrow> m < length xs \<Longrightarrow>
      old_pos (position (xs ! m)) = Some (Suc k + m)" for m
    by blast
  have A': "\<forall>c j. old_pos c = Some j \<longrightarrow>
      op0 c = Some j \<or> (k \<le> j \<and> j < k + length (x # xs) \<and> position ((x # xs) ! (j - k)) = c)"
  proof (intro allI impI)
    fix c j assume "old_pos c = Some j"
    from A [OF this] show "op0 c = Some j \<or>
        (k \<le> j \<and> j < k + length (x # xs) \<and> position ((x # xs) ! (j - k)) = c)"
    proof
      assume "(op0(position x \<mapsto> k)) c = Some j"
      then show ?thesis by (auto split: if_splits)
    next
      assume a: "Suc k \<le> j \<and> j < Suc k + length xs \<and> position (xs ! (j - Suc k)) = c"
      then have "j - k = Suc (j - Suc k)" by arith
      with a show ?thesis by simp
    qed
  qed
  have B': "\<forall>c. c \<notin> set (map position (x # xs)) \<longrightarrow> old_pos c = op0 c"
    using B by auto
  have C': "distinct (map position (x # xs)) \<longrightarrow>
      (\<forall>m < length (x # xs). old_pos (position ((x # xs) ! m)) = Some (k + m))"
  proof (intro impI allI)
    fix m assume d: "distinct (map position (x # xs))" and m: "m < length (x # xs)"
    show "old_pos (position ((x # xs) ! m)) = Some (k + m)"
    proof (cases m)
      case 0
      from d have "position x \<notin> set (map position xs)" by simp
      from B [OF this] 0 show ?thesis by simp
    next
      case (Suc m')
      with d m C [of m'] show ?thesis by simp
    qed
  qed
  from len A' B' C' show ?case by blast
qed

lemma proposed_propose:
  "proposed e actions = Inr pp \<Longrightarrow>
   \<exists>old_pos np. propose e actions (enumerate 0 (robots e)) ([], Map.empty, Map.empty) =
      Inr (pp, old_pos, np)"
  by (auto simp: proposed_def split: sum.splits)

lemma propose_bounded:
  assumes "propose e actions (enumerate 0 rs) ([], Map.empty, Map.empty) = Inr (pp, old_pos, np)"
  shows "length pp = length rs \<and> old_pos_bounded rs old_pos"
proof -
  from propose_result [OF assms] have len: "length pp = length rs"
    and A: "\<And>c j. old_pos c = Some j \<Longrightarrow> j < length rs"
    by auto
  from A have "old_pos_bounded rs old_pos" unfolding old_pos_bounded_def by blast
  with len show ?thesis by simp
qed

lemma propose_exact:
  assumes "propose e actions (enumerate 0 rs) ([], Map.empty, Map.empty) = Inr (pp, old_pos, np)"
    and d: "distinct (map position rs)"
  shows "old_pos_exact rs old_pos"
proof -
  from propose_result [OF assms(1)] have
    A: "\<And>c j. old_pos c = Some j \<Longrightarrow> j < length rs \<and> position (rs ! j) = c"
    and C: "\<And>m. m < length rs \<Longrightarrow> old_pos (position (rs ! m)) = Some m"
    using d by auto
  show ?thesis unfolding old_pos_exact_def
  proof (intro allI iffI)
    fix c j assume "old_pos c = Some j"
    from A [OF this] show "j < length rs \<and> position (rs ! j) = c" .
  next
    fix c j assume "j < length rs \<and> position (rs ! j) = c"
    with C [of j] show "old_pos c = Some j" by auto
  qed
qed

lemma update_positions_result:
  "update_positions mc actions fp (enumerate k rs) r =
     (fold (\<lambda>i acc. if fst (actions ! i) \<in> set [''L'', ''R'', ''U'', ''D''] \<and>
                        fp ! i \<noteq> position (rs ! (i - k))
                     then acc + mc else acc) [k..<k + length rs] r,
      map (\<lambda>i. (rs ! (i - k))\<lparr>position := fp ! i\<rparr>) [k..<k + length rs])"
proof (induction rs arbitrary: k r)
  case Nil
  then show ?case by simp
next
  case (Cons x xs)
  let ?is = "[Suc k..<Suc (k + length xs)]"
  have up: "[k..<k + length (x # xs)] = k # ?is"
    using upt_conv_Cons [of k "k + length (x # xs)"] by simp
  have idx: "\<And>i. i \<in> set ?is \<Longrightarrow> (x # xs) ! (i - k) = xs ! (i - Suc k)"
  proof -
    fix i assume "i \<in> set ?is"
    then have "i - k = Suc (i - Suc k)" by auto
    then show "(x # xs) ! (i - k) = xs ! (i - Suc k)" by simp
  qed
  have f: "fold (\<lambda>i acc. if fst (actions ! i) \<in> set [''L'', ''R'', ''U'', ''D''] \<and>
                        fp ! i \<noteq> position ((x # xs) ! (i - k))
                     then acc + mc else acc) ?is r' =
           fold (\<lambda>i acc. if fst (actions ! i) \<in> set [''L'', ''R'', ''U'', ''D''] \<and>
                        fp ! i \<noteq> position (xs ! (i - Suc k))
                     then acc + mc else acc) ?is r'" for r'
    by (rule fold_cong) (simp_all add: idx)
  have m: "map (\<lambda>i. ((x # xs) ! (i - k))\<lparr>position := fp ! i\<rparr>) ?is =
           map (\<lambda>i. (xs ! (i - Suc k))\<lparr>position := fp ! i\<rparr>) ?is"
    by (rule map_cong) (simp_all add: idx)
  have IH: "update_positions mc actions fp (enumerate (Suc k) xs) r' =
     (fold (\<lambda>i acc. if fst (actions ! i) \<in> set [''L'', ''R'', ''U'', ''D''] \<and>
                        fp ! i \<noteq> position (xs ! (i - Suc k))
                     then acc + mc else acc) ?is r',
      map (\<lambda>i. (xs ! (i - Suc k))\<lparr>position := fp ! i\<rparr>) ?is)" for r'
    using Cons.IH [of "Suc k" r'] by simp
  show ?case
    unfolding up by (simp add: IH f m Let_def del: upt_Suc list.set set_simps)
qed

section \<open>The movement part of a step\<close>

lemma valid_position_rect:
  assumes "rectangular e"
  shows "\<exists>b. valid_position e pos = Inr b"
proof (cases pos)
  case (Pair r c)
  show ?thesis
  proof (cases "r < 0 \<or> r \<ge> n_rows e \<or> c < 0 \<or> c \<ge> n_cols e")
    case True
    with Pair show ?thesis by (auto simp: valid_position_def)
  next
    case False
    then have r: "nat r < length (grid e)" and ne: "grid e \<noteq> []"
      and c: "nat c < length (hd (grid e))"
      by (auto simp: n_rows_def n_cols_def split: if_splits)
    from r have "grid e ! nat r \<in> set (grid e)" by simp
    with assms have "length (grid e ! nat r) = length (hd (grid e))"
      unfolding rectangular_def by blast
    with c have "\<exists>v. grid_at e r c = Inr v" by (simp add: grid_at_def Let_def)
    with False Pair show ?thesis by (auto simp: valid_position_def)
  qed
qed

lemma propose_total:
  assumes "rectangular e"
  shows "\<exists>res. propose e actions l acc = Inr res"
proof (induction l arbitrary: acc)
  case Nil
  show ?case by (simp del: split_paired_Ex)
next
  case (Cons x l)
  obtain i rb where x: "x = (i, rb)" by (cases x)
  obtain pp op np where acc: "acc = (pp, op, np)" by (cases acc)
  from valid_position_rect [OF assms] obtain b where
    "valid_position e (compute_new_position (position rb) (fst (actions ! i))) = Inr b" by blast
  then show ?case using Cons.IH unfolding x acc by (simp add: Let_def del: split_paired_Ex)
qed

lemma proposed_total: "rectangular e \<Longrightarrow> \<exists>pp. proposed e actions = Inr pp"
  using propose_total [of e actions "enumerate 0 (robots e)" "([], Map.empty, Map.empty)"]
  by (auto simp: proposed_def)

lemma movement_phase_result:
  assumes "movement_phase e actions = Inr (e1, r1)"
  shows "\<exists>pp old_pos np fp.
           propose e actions (enumerate 0 (robots e)) ([], Map.empty, Map.empty) =
             Inr (pp, old_pos, np) \<and>
           resolve_movement (robots e) pp old_pos = Inr fp \<and> length fp = length (robots e) \<and>
           e1 = e\<lparr>robots := map (\<lambda>i. (robots e ! i)\<lparr>position := fp ! i\<rparr>)
                                [0..<length (robots e)]\<rparr> \<and>
           r1 = fold (\<lambda>i acc. if fst (actions ! i) \<in> set [''L'', ''R'', ''U'', ''D''] \<and>
                                    fp ! i \<noteq> position (robots e ! i)
                                 then acc + move_cost e else acc)
                     [0..<length (robots e)] 0"
proof -
  from assms obtain pp old_pos np fp where
    p: "propose e actions (enumerate 0 (robots e)) ([], Map.empty, Map.empty) =
          Inr (pp, old_pos, np)"
    and f: "resolve_movement (robots e) pp old_pos = Inr fp"
    and u: "(case update_positions (move_cost e) actions fp (enumerate 0 (robots e)) 0 of
              (r1', rs') \<Rightarrow> Inr (e\<lparr>robots := rs'\<rparr>, r1')) = (Inr (e1, r1) :: (error \<times> 'a env) + ('a env \<times> 'a))"
    by (auto simp: movement_phase_def Let_def split: sum.splits prod.splits)
  from propose_bounded [OF p] have "length pp = length (robots e)"
    "old_pos_bounded (robots e) old_pos" by simp_all
  from resolve_movement_total [OF this] f have len: "length fp = length (robots e)" by auto
  from u have "e1 = e\<lparr>robots := map (\<lambda>i. (robots e ! i)\<lparr>position := fp ! i\<rparr>)
                                [0..<length (robots e)]\<rparr> \<and>
           r1 = fold (\<lambda>i acc. if fst (actions ! i) \<in> set [''L'', ''R'', ''U'', ''D''] \<and>
                                    fp ! i \<noteq> position (robots e ! i)
                                 then acc + move_cost e else acc)
                     [0..<length (robots e)] 0"
    by (simp add: update_positions_result del: list.set set_simps upt_Suc)
  with p f len show ?thesis by blast
qed


lemma map_position_update:
  "map position (rs[i := (rs ! i)\<lparr>carrying := c\<rparr>]) = map position rs"
proof (cases "i < length rs")
  case True
  then show ?thesis by (simp add: map_update list_update_same_conv)
next
  case False
  then have "length rs \<le> i" by simp
  then show ?thesis by (simp only: list_update_beyond)
qed

lemma package_action_frame:
  assumes "package_action e i pa r = Inr (e', r')"
  shows "map position (robots e') = map position (robots e) \<and>
         grid e' = grid e \<and> t e' = t e \<and> total_reward e' = total_reward e \<and>
         max_time_steps e' = max_time_steps e \<and> move_cost e' = move_cost e \<and>
         (pa \<noteq> ''2'' \<longrightarrow> r' = r)"
  using assms
  by (auto simp: package_action_def Let_def map_position_update
           split: if_splits option.splits)

lemma package_actions_frame:
  assumes "package_actions e actions is r = Inr (e', r')"
  shows "map position (robots e') = map position (robots e) \<and>
         grid e' = grid e \<and> t e' = t e \<and> total_reward e' = total_reward e \<and>
         max_time_steps e' = max_time_steps e \<and> move_cost e' = move_cost e \<and>
         ((\<forall>i \<in> set is. snd (actions ! i) \<noteq> ''2'') \<longrightarrow> r' = r)"
  using assms
proof (induction "is" arbitrary: e r)
  case Nil
  then show ?case by simp
next
  case (Cons i rest)
  from Cons.prems obtain e1 r1 where
    a: "package_action e i (snd (actions ! i)) r = Inr (e1, r1)"
    and b: "package_actions e1 actions rest r1 = Inr (e', r')"
    by (auto split: sum.splits)
  from package_action_frame [OF a] Cons.IH [OF b] show ?case by auto
qed

lemma step_parts:
  assumes "step e actions = Inr (e', snap, r, d, infos)"
  shows "\<exists>e1 r1 e2.
           length actions = length (robots e) \<and>
           movement_phase e actions = Inr (e1, r1) \<and>
           package_actions e1 actions [0..<length (robots e1)] r1 = Inr (e2, r) \<and>
           (e', snap) = get_state (e2\<lparr>t := t e2 + 1, total_reward := total_reward e2 + r\<rparr>) \<and>
           d = check_terminate (e2\<lparr>t := t e2 + 1, total_reward := total_reward e2 + r\<rparr>) \<and>
           infos = (if d then [(''total_reward'', Reward (total_reward e2 + r)),
                               (''total_time_steps'', Ticks (t e2 + 1))] else [])"
  using assms
  by (auto simp: step_def Let_def split: if_splits sum.splits prod.splits)

lemma get_state_robots: "get_state e = (e', snap) \<Longrightarrow> robots e' = robots e"
  by (auto simp: get_state_def Let_def)

lemma step_positions:
  assumes "step e actions = Inr (e', snap, r, d, infos)"
  shows "\<exists>e1 r1. movement_phase e actions = Inr (e1, r1) \<and>
           map position (robots e') = map position (robots e1)"
proof -
  from step_parts [OF assms] obtain e1 r1 e2 where
    m: "movement_phase e actions = Inr (e1, r1)"
    and p: "package_actions e1 actions [0..<length (robots e1)] r1 = Inr (e2, r)"
    and g: "(e', snap) = get_state (e2\<lparr>t := t e2 + 1, total_reward := total_reward e2 + r\<rparr>)"
    by blast
  from get_state_robots [OF g [symmetric]] have "robots e' = robots e2" by simp
  with package_actions_frame [OF p] m show ?thesis by auto
qed

lemma movement_phase_distinct:
  assumes d: "distinct (map position (robots e))"
    and m: "movement_phase e actions = Inr (e1, r1)"
  shows "distinct (map position (robots e1)) \<and> length (robots e1) = length (robots e)"
proof -
  from movement_phase_result [OF m] obtain pp old_pos np fp where
    p: "propose e actions (enumerate 0 (robots e)) ([], Map.empty, Map.empty) =
          Inr (pp, old_pos, np)"
    and f: "resolve_movement (robots e) pp old_pos = Inr fp" "length fp = length (robots e)"
    and e1: "e1 = e\<lparr>robots := map (\<lambda>i. (robots e ! i)\<lparr>position := fp ! i\<rparr>)
                                [0..<length (robots e)]\<rparr>"
    by blast
  from propose_bounded [OF p] have len: "length pp = length (robots e)" by simp
  from resolve_movement_distinct [OF len propose_exact [OF p d] d] f
  have dfp: "distinct fp" by auto
  have "map position (robots e1) = fp"
    unfolding e1 using f(2) by (intro nth_equalityI) simp_all
  with dfp e1 show ?thesis by simp
qed

lemma movement_phase_total:
  assumes "proposed e actions = Inr pp"
  shows "\<exists>e1 r1. movement_phase e actions = Inr (e1, r1)"
proof -
  from proposed_propose [OF assms] obtain old_pos np where
    p: "propose e actions (enumerate 0 (robots e)) ([], Map.empty, Map.empty) =
          Inr (pp, old_pos, np)" by blast
  from propose_bounded [OF p] have "length pp = length (robots e)"
    "old_pos_bounded (robots e) old_pos" by simp_all
  from resolve_movement_total [OF this] obtain fp where
    "resolve_movement (robots e) pp old_pos = Inr fp" by blast
  with p show ?thesis
    by (simp add: movement_phase_def Let_def split: prod.splits)
qed

section \<open>No two robots on one cell\<close>

text \<open>
  Claim C1. The robots stand on pairwise distinct cells and the action vector is any.
  Then the movement part of \<^verbatim>\<open>step\<close> (proposal, resolution loop, defaulting of the
  robots the loop left undecided, assignment) returns on every rectangular map, and
  whenever it returns the positions it has assigned are pairwise distinct; so are the
  positions after the whole step.
\<close>

theorem no_double_occupancy:
  assumes "distinct (map position (robots e))"
  shows "(rectangular e \<longrightarrow> (\<exists>e1 r1. movement_phase e actions = Inr (e1, r1))) \<and>
         (\<forall>e1 r1. movement_phase e actions = Inr (e1, r1) \<longrightarrow>
            distinct (map position (robots e1))) \<and>
         (\<forall>e' snap r d infos. step e actions = Inr (e', snap, r, d, infos) \<longrightarrow>
            distinct (map position (robots e')))"
proof (intro conjI allI impI)
  assume "rectangular e"
  from proposed_total [OF this] obtain pp where "proposed e actions = Inr pp" by blast
  from movement_phase_total [OF this] show "\<exists>e1 r1. movement_phase e actions = Inr (e1, r1)" .
next
  fix e1 r1 assume "movement_phase e actions = Inr (e1, r1)"
  from movement_phase_distinct [OF assms this] show "distinct (map position (robots e1))" by simp
next
  fix e' snap r d infos
  assume "step e actions = Inr (e', snap, r, d, infos)"
  from step_positions [OF this] obtain e1 r1 where
    m: "movement_phase e actions = Inr (e1, r1)"
    and eq: "map position (robots e') = map position (robots e1)" by blast
  from movement_phase_distinct [OF assms m] eq
  show "distinct (map position (robots e'))" by simp
qed

theorem no_double_occupancy_witness:
  "distinct (map position (robots example_env)) \<and> rectangular example_env \<and>
   movement_phase example_env [(''R'', ''0''), (''L'', ''0'')] = Inr (example_contend_moved, - 1) \<and>
   distinct (map position (robots example_contend_moved)) \<and>
   step example_env [(''R'', ''0''), (''L'', ''0'')] =
     Inr (example_contend_after, example_contend_snapshot, - 1, False, []) \<and>
   distinct (map position (robots example_contend_after))"
proof -
  have h: "distinct (map position (robots example_env))"
    by (simp add: example_env_def)
  have r: "rectangular example_env"
    by (simp add: rectangular_def example_env_def)
  note c = no_double_occupancy [OF h, of "[(''R'', ''0''), (''L'', ''0'')]"]
  from c example_contend_movement
  have m: "distinct (map position (robots example_contend_moved))" by blast
  from c example_contend_step
  have s: "distinct (map position (robots example_contend_after))" by blast
  from h r m s example_contend_movement example_contend_step show ?thesis by simp
qed

section \<open>No swap\<close>

text \<open>
  Claim C2. The robots stand on pairwise distinct cells; robot \<open>a\<close>'s proposed cell is
  robot \<open>b\<close>'s current cell and robot \<open>b\<close>'s proposed cell is robot \<open>a\<close>'s. Then the
  movement part of the step returns and leaves both where they were, and so does the whole
  step. With distinct cells no third robot can break the cycle: each of the two waits for
  the other in every pass, and the defaulting loop gives both their current cells.
\<close>

theorem no_swap:
  assumes d: "distinct (map position (robots e))"
    and pr: "proposed e actions = Inr pp"
    and a: "a < length (robots e)" and b: "b < length (robots e)"
    and ab: "pp ! a = position (robots e ! b)" and ba: "pp ! b = position (robots e ! a)"
  shows "(\<exists>e1 r1. movement_phase e actions = Inr (e1, r1) \<and>
            position (robots e1 ! a) = position (robots e ! a) \<and>
            position (robots e1 ! b) = position (robots e ! b)) \<and>
         (\<forall>e' snap r dn infos. step e actions = Inr (e', snap, r, dn, infos) \<longrightarrow>
            position (robots e' ! a) = position (robots e ! a) \<and>
            position (robots e' ! b) = position (robots e ! b))"
proof -
  from movement_phase_total [OF pr] obtain e1 r1 where
    m: "movement_phase e actions = Inr (e1, r1)" by blast
  from movement_phase_result [OF m] obtain pp' old_pos np fp where
    p: "propose e actions (enumerate 0 (robots e)) ([], Map.empty, Map.empty) =
          Inr (pp', old_pos, np)"
    and f: "resolve_movement (robots e) pp' old_pos = Inr fp" "length fp = length (robots e)"
    and e1: "e1 = e\<lparr>robots := map (\<lambda>i. (robots e ! i)\<lparr>position := fp ! i\<rparr>)
                                [0..<length (robots e)]\<rparr>"
    by blast
  from p pr have pp: "pp' = pp" by (simp add: proposed_def)
  from propose_bounded [OF p] have len: "length pp = length (robots e)" by (simp add: pp)
  from resolve_movement_swap [OF len propose_exact [OF p d] a b ab ba] f pp
  have fa: "fp ! a = position (robots e ! a)" and fb: "fp ! b = position (robots e ! b)"
    by auto
  have pa: "position (robots e1 ! a) = position (robots e ! a)"
    and pb: "position (robots e1 ! b) = position (robots e ! b)"
    using a b fa fb by (simp_all add: e1)
  have l1: "length (robots e1) = length (robots e)" by (simp add: e1)
  have "\<forall>e' snap r dn infos. step e actions = Inr (e', snap, r, dn, infos) \<longrightarrow>
            position (robots e' ! a) = position (robots e ! a) \<and>
            position (robots e' ! b) = position (robots e ! b)"
  proof (intro allI impI)
    fix e' snap r dn infos
    assume "step e actions = Inr (e', snap, r, dn, infos)"
    from step_positions [OF this] m
    have eq: "map position (robots e') = map position (robots e1)" by auto
    then have "length (robots e') = length (robots e1)" by (metis length_map)
    with eq a b l1 have "position (robots e' ! a) = position (robots e1 ! a)"
      "position (robots e' ! b) = position (robots e1 ! b)"
      by (metis nth_map)+
    with pa pb show "position (robots e' ! a) = position (robots e ! a) \<and>
            position (robots e' ! b) = position (robots e ! b)" by simp
  qed
  with m pa pb show ?thesis by blast
qed

theorem no_swap_witness:
  "distinct (map position (robots example_swap_env)) \<and>
   proposed example_swap_env [(''R'', ''0''), (''L'', ''0'')] = Inr [(0, 1), (0, 0)] \<and>
   (0::nat) < length (robots example_swap_env) \<and> (1::nat) < length (robots example_swap_env) \<and>
   [(0, 1), (0, 0)] ! 0 = position (robots example_swap_env ! 1) \<and>
   [(0, 1), (0, 0)] ! 1 = position (robots example_swap_env ! 0) \<and>
   movement_phase example_swap_env [(''R'', ''0''), (''L'', ''0'')] = Inr (example_swap_env, 0) \<and>
   step example_swap_env [(''R'', ''0''), (''L'', ''0'')] =
     Inr (example_swap_env\<lparr>t := 4\<rparr>, example_swap_snapshot, 0, True,
          [(''total_reward'', Reward 0), (''total_time_steps'', Ticks 4)]) \<and>
   position (robots (example_swap_env\<lparr>t := 4\<rparr>) ! 0) = (0, 0) \<and>
   position (robots (example_swap_env\<lparr>t := 4\<rparr>) ! 1) = (0, 1)"
proof -
  have d: "distinct (map position (robots example_swap_env))"
    by (simp add: example_swap_env_def)
  have a: "0 < length (robots example_swap_env)" and b: "1 < length (robots example_swap_env)"
    by (simp_all add: example_swap_env_def)
  have ab: "[(0, 1), (0, 0)] ! 0 = position (robots example_swap_env ! 1)"
    and ba: "[(0, 1), (0, 0)] ! 1 = position (robots example_swap_env ! 0)"
    by (simp_all add: example_swap_env_def)
  from no_swap [OF d example_swap_proposed a b ab ba]
    d example_swap_proposed a b ab ba example_swap_movement example_swap_step
  show ?thesis by (simp add: example_swap_env_def)
qed

section \<open>The cost of moving\<close>

lemma movement_cost_rule:
  assumes "step e actions = Inr (e', snap, r, d, infos)"
  shows "\<exists>e1 e2. movement_phase e actions = Inr (e1, move_cost_rule e actions e') \<and>
           package_actions e1 actions [0..<length (robots e)] (move_cost_rule e actions e') =
             Inr (e2, r)"
proof -
  from step_parts [OF assms] obtain e1 r1 e2 where
    m: "movement_phase e actions = Inr (e1, r1)"
    and p: "package_actions e1 actions [0..<length (robots e1)] r1 = Inr (e2, r)"
    by blast
  from movement_phase_result [OF m] obtain fp where
    f: "length fp = length (robots e)"
    and e1: "e1 = e\<lparr>robots := map (\<lambda>i. (robots e ! i)\<lparr>position := fp ! i\<rparr>)
                                [0..<length (robots e)]\<rparr>"
    and r1: "r1 = fold (\<lambda>i acc. if fst (actions ! i) \<in> set [''L'', ''R'', ''U'', ''D''] \<and>
                                    fp ! i \<noteq> position (robots e ! i)
                                 then acc + move_cost e else acc)
                     [0..<length (robots e)] 0"
    by blast
  from step_positions [OF assms] m
  have eq: "map position (robots e') = map position (robots e1)" by auto
  have l1: "length (robots e1) = length (robots e)" by (simp add: e1)
  from eq have l': "length (robots e') = length (robots e1)" by (metis length_map)
  have pos: "position (robots e' ! i) = fp ! i" if "i < length (robots e)" for i
  proof -
    from that l1 l' eq have "position (robots e' ! i) = position (robots e1 ! i)"
      by (metis nth_map)
    with that show ?thesis by (simp add: e1)
  qed
  have "r1 = move_cost_rule e actions e'"
    unfolding r1 move_cost_rule_def
    by (rule fold_cong) (auto simp: pos)
  with m p l1 show ?thesis by auto
qed

text \<open>
  Claim C5. The reward of a step is what the package actions add to the movement cost,
  and the movement cost is the rule of the specification: \<^verbatim>\<open>move_cost\<close> once for each
  robot whose move is \<^verbatim>\<open>'L'\<close>, \<^verbatim>\<open>'R'\<close>, \<^verbatim>\<open>'U'\<close> or \<^verbatim>\<open>'D'\<close> and whose position after the
  step differs from its position before, and for no other robot (a robot that stays, is
  blocked, is bumped back or issues another symbol keeps its cell, so it pays nothing).
  When no robot issues a drop, the step reward is that cost itself.
\<close>

theorem move_cost_included:
  assumes "step e actions = Inr (e', snap, r, d, infos)"
  shows "(\<exists>e1 e2. movement_phase e actions = Inr (e1, move_cost_rule e actions e') \<and>
            package_actions e1 actions [0..<length (robots e)] (move_cost_rule e actions e') =
              Inr (e2, r)) \<and>
         ((\<forall>i < length (robots e). snd (actions ! i) \<noteq> ''2'') \<longrightarrow>
            r = move_cost_rule e actions e')"
proof (intro conjI impI)
  from movement_cost_rule [OF assms]
  show "\<exists>e1 e2. movement_phase e actions = Inr (e1, move_cost_rule e actions e') \<and>
            package_actions e1 actions [0..<length (robots e)] (move_cost_rule e actions e') =
              Inr (e2, r)" .
next
  assume nd: "\<forall>i < length (robots e). snd (actions ! i) \<noteq> ''2''"
  from movement_cost_rule [OF assms] obtain e1 e2 where
    p: "package_actions e1 actions [0..<length (robots e)] (move_cost_rule e actions e') =
          Inr (e2, r)" by blast
  from package_actions_frame [OF p] nd show "r = move_cost_rule e actions e'" by simp
qed

theorem move_cost_included_witness:
  "step example_env [(''R'', ''0''), (''L'', ''0'')] =
     Inr (example_contend_after, example_contend_snapshot, - 1, False, []) \<and>
   snd ([(''R'', ''0''), (''L'', ''0'')] ! 0) \<noteq> ''2'' \<and>
   snd ([(''R'', ''0''), (''L'', ''0'')] ! 1) \<noteq> ''2'' \<and>
   move_cost_rule example_env [(''R'', ''0''), (''L'', ''0'')] example_contend_after = - 1 \<and>
   position (robots example_contend_after ! 0) \<noteq> position (robots example_env ! 0) \<and>
   position (robots example_contend_after ! 1) = position (robots example_env ! 1)"
proof -
  have nd: "\<forall>i < length (robots example_env). snd ([(''R'', ''0''), (''L'', ''0'')] ! i) \<noteq> ''2''"
    by (simp add: example_env_def less_Suc_eq)
  from move_cost_included [OF example_contend_step] nd
  have "move_cost_rule example_env [(''R'', ''0''), (''L'', ''0'')] example_contend_after = - 1"
    by simp
  with example_contend_step show ?thesis
    by (simp add: example_env_def example_contend_after_def)
qed

section \<open>The life of a package\<close>

text \<open>
  The package actions, the tick and \<^verbatim>\<open>get_state\<close> keep \<open>lifecycle_ok\<close> and never take a
  package back to an earlier status; \<^verbatim>\<open>reset\<close> establishes it.
\<close>

lemma advances_refl: "advances ps ps"
  by (simp add: advances_def)

lemma advances_trans: "advances ps ps' \<Longrightarrow> advances ps' ps'' \<Longrightarrow> advances ps ps''"
  unfolding advances_def by (metis le_trans)

lemma advances_update:
  assumes "j < length ps" "rank (status (ps ! j)) \<le> rank s"
  shows "advances ps (ps[j := (ps ! j)\<lparr>status := s\<rparr>])"
  using assms by (auto simp: advances_def nth_list_update)

lemma find_waiting_Some:
  "find_waiting ps pos now k = Some j \<Longrightarrow>
   k \<le> j \<and> j - k < length ps \<and> status (ps ! (j - k)) = Waiting \<and>
   start_time (ps ! (j - k)) \<le> now"
proof (induction ps arbitrary: k)
  case Nil
  then show ?case by simp
next
  case (Cons p ps)
  show ?case
  proof (cases "status p = Waiting \<and> start p = pos \<and> start_time p \<le> now")
    case True
    with Cons.prems show ?thesis by auto
  next
    case False
    with Cons.prems have "find_waiting ps pos now (Suc k) = Some j" by auto
    from Cons.IH [OF this] have a: "Suc k \<le> j" "j - Suc k < length ps"
      "status (ps ! (j - Suc k)) = Waiting" "start_time (ps ! (j - Suc k)) \<le> now"
      by simp_all
    from a(1) have "j - k = Suc (j - Suc k)" by arith
    with a show ?thesis by simp
  qed
qed

lemma lifecycle_okI:
  assumes "\<And>j. j < length ps \<Longrightarrow> package_id (ps ! j) = int j + 1"
    and "\<And>j. j < length ps \<Longrightarrow> now < start_time (ps ! j) \<Longrightarrow> status (ps ! j) = NoneStatus"
    and "\<And>i. i < length rs \<Longrightarrow> carrying (rs ! i) \<noteq> 0 \<Longrightarrow>
        1 \<le> carrying (rs ! i) \<and> carrying (rs ! i) \<le> int (length ps) \<and>
        start_time (ps ! nat (carrying (rs ! i) - 1)) \<le> now"
  shows "lifecycle_ok now rs ps"
  using assms unfolding lifecycle_ok_def by blast

lemma lifecycle_ok_id: "lifecycle_ok now rs ps \<Longrightarrow> j < length ps \<Longrightarrow> package_id (ps ! j) = int j + 1"
  unfolding lifecycle_ok_def by blast

lemma lifecycle_ok_pending:
  "lifecycle_ok now rs ps \<Longrightarrow> j < length ps \<Longrightarrow> now < start_time (ps ! j) \<Longrightarrow>
   status (ps ! j) = NoneStatus"
  unfolding lifecycle_ok_def by blast

lemma lifecycle_ok_carrying:
  "lifecycle_ok now rs ps \<Longrightarrow> i < length rs \<Longrightarrow> carrying (rs ! i) \<noteq> 0 \<Longrightarrow>
   1 \<le> carrying (rs ! i) \<and> carrying (rs ! i) \<le> int (length ps) \<and>
   start_time (ps ! nat (carrying (rs ! i) - 1)) \<le> now"
  unfolding lifecycle_ok_def by blast

lemma start_time_update [simp]:
  "start_time ((ps[j := (ps ! j)\<lparr>status := s\<rparr>]) ! k) = start_time (ps ! k)"
  by (cases "j < length ps"; cases "k = j") (simp_all add: list_update_beyond)

lemma package_id_update [simp]:
  "package_id ((ps[j := (ps ! j)\<lparr>status := s\<rparr>]) ! k) = package_id (ps ! k)"
  by (cases "j < length ps"; cases "k = j") (simp_all add: list_update_beyond)

lemma ok_pickup:
  assumes ok: "lifecycle_ok now rs ps" and i: "i < length rs"
    and j: "j < length ps" and st: "start_time (ps ! j) \<le> now"
  shows "lifecycle_ok now (rs[i := (rs ! i)\<lparr>carrying := package_id (ps ! j)\<rparr>])
           (ps[j := (ps ! j)\<lparr>status := InTransit\<rparr>])"
proof (rule lifecycle_okI)
  fix k assume "k < length (ps[j := (ps ! j)\<lparr>status := InTransit\<rparr>])"
  then show "package_id (ps[j := (ps ! j)\<lparr>status := InTransit\<rparr>] ! k) = int k + 1"
    using lifecycle_ok_id [OF ok, of k] by simp
next
  fix k assume k: "k < length (ps[j := (ps ! j)\<lparr>status := InTransit\<rparr>])"
    and lt: "now < start_time (ps[j := (ps ! j)\<lparr>status := InTransit\<rparr>] ! k)"
  from lt st have "k \<noteq> j" by auto
  with k lt lifecycle_ok_pending [OF ok, of k]
  show "status (ps[j := (ps ! j)\<lparr>status := InTransit\<rparr>] ! k) = NoneStatus" by simp
next
  fix m
  let ?rs = "rs[i := (rs ! i)\<lparr>carrying := package_id (ps ! j)\<rparr>]"
  let ?ps = "ps[j := (ps ! j)\<lparr>status := InTransit\<rparr>]"
  assume m: "m < length ?rs" and c: "carrying (?rs ! m) \<noteq> 0"
  show "1 \<le> carrying (?rs ! m) \<and> carrying (?rs ! m) \<le> int (length ?ps) \<and>
        start_time (?ps ! nat (carrying (?rs ! m) - 1)) \<le> now"
  proof (cases "m = i")
    case True
    with i j st lifecycle_ok_id [OF ok j] show ?thesis by simp
  next
    case False
    with m c lifecycle_ok_carrying [OF ok, of m] show ?thesis by simp
  qed
qed

lemma ok_drop:
  assumes ok: "lifecycle_ok now rs ps" and i: "i < length rs"
    and k: "k < length ps" and st: "start_time (ps ! k) \<le> now"
  shows "lifecycle_ok now (rs[i := (rs ! i)\<lparr>carrying := 0\<rparr>])
           (ps[k := (ps ! k)\<lparr>status := Delivered\<rparr>])"
proof (rule lifecycle_okI)
  fix j assume "j < length (ps[k := (ps ! k)\<lparr>status := Delivered\<rparr>])"
  then show "package_id (ps[k := (ps ! k)\<lparr>status := Delivered\<rparr>] ! j) = int j + 1"
    using lifecycle_ok_id [OF ok, of j] by simp
next
  fix j assume j: "j < length (ps[k := (ps ! k)\<lparr>status := Delivered\<rparr>])"
    and lt: "now < start_time (ps[k := (ps ! k)\<lparr>status := Delivered\<rparr>] ! j)"
  from lt st have "j \<noteq> k" by auto
  with j lt lifecycle_ok_pending [OF ok, of j]
  show "status (ps[k := (ps ! k)\<lparr>status := Delivered\<rparr>] ! j) = NoneStatus" by simp
next
  fix m
  let ?rs = "rs[i := (rs ! i)\<lparr>carrying := 0\<rparr>]"
  let ?ps = "ps[k := (ps ! k)\<lparr>status := Delivered\<rparr>]"
  assume m: "m < length ?rs" and c: "carrying (?rs ! m) \<noteq> 0"
  show "1 \<le> carrying (?rs ! m) \<and> carrying (?rs ! m) \<le> int (length ?ps) \<and>
        start_time (?ps ! nat (carrying (?rs ! m) - 1)) \<le> now"
  proof (cases "m = i")
    case True
    with i c show ?thesis by simp
  next
    case False
    with m c lifecycle_ok_carrying [OF ok, of m] show ?thesis by simp
  qed
qed

lemma package_action_inv:
  assumes inv: "lifecycle_inv e" and i: "i < length (robots e)"
  shows "\<exists>e' r'. package_action e i pa r = Inr (e', r') \<and> lifecycle_inv e' \<and>
           advances (packages e) (packages e') \<and> t e' = t e \<and>
           length (robots e') = length (robots e)"
proof -
  from inv have ok: "lifecycle_ok (t e) (robots e) (packages e)" by (simp add: lifecycle_inv_def)
  let ?rb = "robots e ! i"
  have same: ?thesis if "package_action e i pa r = Inr (e, r)"
    using that inv advances_refl by auto
  show ?thesis
  proof (cases "pa = ''2'' \<and> carrying ?rb \<noteq> 0")
    case True
    from lifecycle_ok_carrying [OF ok i] True have c: "1 \<le> carrying ?rb"
      "carrying ?rb \<le> int (length (packages e))"
      and st: "start_time (packages e ! nat (carrying ?rb - 1)) \<le> t e" by simp_all
    let ?k = "nat (carrying ?rb - 1)"
    from c have k: "?k < length (packages e)" by simp
    show ?thesis
    proof (cases "position ?rb = target (packages e ! ?k)")
      case at: True
      let ?e' = "e\<lparr>packages := (packages e)[?k := (packages e ! ?k)\<lparr>status := Delivered\<rparr>],
                     robots := (robots e)[i := ?rb\<lparr>carrying := 0\<rparr>]\<rparr>"
      have "\<exists>r'. package_action e i pa r = Inr (?e', r')"
        using True at py_index_valid [OF c] by (simp add: package_action_def Let_def)
      moreover have "lifecycle_inv ?e'"
        using ok_drop [OF ok i k st] by (simp add: lifecycle_inv_def)
      moreover have "advances (packages e) (packages ?e')"
        using advances_update [OF k, of Delivered]
        by (cases "status (packages e ! ?k)") simp_all
      ultimately show ?thesis by auto
    next
      case False
      have "package_action e i pa r = Inr (e, r)"
        using True False py_index_valid [OF c] by (simp add: package_action_def Let_def)
      then show ?thesis by (rule same)
    qed
  next
    case nodrop: False
    show ?thesis
    proof (cases "pa = ''1'' \<and> carrying ?rb = 0")
      case True
      show ?thesis
      proof (cases "find_waiting (packages e) (position ?rb) (t e) 0")
        case None
        with True have "package_action e i pa r = Inr (e, r)"
          by (simp add: package_action_def Let_def)
        then show ?thesis by (rule same)
      next
        case (Some j)
        from find_waiting_Some [OF Some] have j: "j < length (packages e)"
          and w: "status (packages e ! j) = Waiting"
          and st: "start_time (packages e ! j) \<le> t e"
          by simp_all
        let ?e' = "e\<lparr>robots := (robots e)[i := ?rb\<lparr>carrying := package_id (packages e ! j)\<rparr>],
                     packages := (packages e)[j := (packages e ! j)\<lparr>status := InTransit\<rparr>]\<rparr>"
        have "package_action e i pa r = Inr (?e', r)"
          using True Some by (simp add: package_action_def Let_def)
        moreover have "lifecycle_inv ?e'"
          using ok_pickup [OF ok i j st] by (simp add: lifecycle_inv_def)
        moreover have "advances (packages e) (packages ?e')"
          using advances_update [OF j, of InTransit] w by simp
        ultimately show ?thesis by auto
      qed
    next
      case False
      with nodrop have "package_action e i pa r = Inr (e, r)"
        by (auto simp: package_action_def Let_def)
      then show ?thesis by (rule same)
    qed
  qed
qed

lemma package_actions_inv:
  assumes "lifecycle_inv e" "set is \<subseteq> {..<length (robots e)}"
  shows "\<exists>e' r'. package_actions e actions is r = Inr (e', r') \<and> lifecycle_inv e' \<and>
           advances (packages e) (packages e') \<and> t e' = t e \<and>
           length (robots e') = length (robots e)"
  using assms
proof (induction "is" arbitrary: e r)
  case Nil
  then show ?case by (simp add: advances_refl)
next
  case (Cons i rest)
  then have i: "i < length (robots e)" by simp
  from package_action_inv [OF Cons.prems(1) i, of "snd (actions ! i)" r] obtain e1 r1 where
    a: "package_action e i (snd (actions ! i)) r = Inr (e1, r1)" "lifecycle_inv e1"
       "advances (packages e) (packages e1)" "t e1 = t e"
       "length (robots e1) = length (robots e)"
    by blast
  from Cons.prems(2) a(5) have "set rest \<subseteq> {..<length (robots e1)}" by simp
  from Cons.IH [OF a(2) this, of r1] obtain e' r' where
    b: "package_actions e1 actions rest r1 = Inr (e', r')" "lifecycle_inv e'"
       "advances (packages e1) (packages e')" "t e' = t e1"
       "length (robots e') = length (robots e1)"
    by blast
  from a b advances_trans [OF a(3) b(3)] show ?case by auto
qed


lemma get_state_packages:
  "get_state e = (e', snap) \<Longrightarrow>
   packages e' = map (reveal (t e)) (packages e) \<and> robots e' = robots e \<and> t e' = t e \<and>
   max_time_steps e' = max_time_steps e \<and> total_reward e' = total_reward e"
  by (auto simp: get_state_def Let_def reveal_def)

lemma ok_robots_cong:
  assumes "lifecycle_ok now rs ps" "length rs' = length rs"
    "\<And>i. i < length rs \<Longrightarrow> carrying (rs' ! i) = carrying (rs ! i)"
  shows "lifecycle_ok now rs' ps"
proof (rule lifecycle_okI)
  fix j assume "j < length ps"
  then show "package_id (ps ! j) = int j + 1" by (rule lifecycle_ok_id [OF assms(1)])
next
  fix j assume "j < length ps" "now < start_time (ps ! j)"
  then show "status (ps ! j) = NoneStatus" by (rule lifecycle_ok_pending [OF assms(1)])
next
  fix i assume "i < length rs'" "carrying (rs' ! i) \<noteq> 0"
  with assms(2,3) lifecycle_ok_carrying [OF assms(1), of i]
  show "1 \<le> carrying (rs' ! i) \<and> carrying (rs' ! i) \<le> int (length ps) \<and>
        start_time (ps ! nat (carrying (rs' ! i) - 1)) \<le> now" by simp
qed

lemma ok_tick_reveal:
  assumes ok: "lifecycle_ok now rs ps"
  shows "lifecycle_ok (now + 1) rs (map (reveal (now + 1)) ps) \<and>
         advances ps (map (reveal (now + 1)) ps)"
proof
  show "lifecycle_ok (now + 1) rs (map (reveal (now + 1)) ps)"
  proof (rule lifecycle_okI)
    fix j assume "j < length (map (reveal (now + 1)) ps)"
    then show "package_id (map (reveal (now + 1)) ps ! j) = int j + 1"
      using lifecycle_ok_id [OF ok, of j] by (simp add: reveal_def)
  next
    fix j assume j: "j < length (map (reveal (now + 1)) ps)"
      and lt: "now + 1 < start_time (map (reveal (now + 1)) ps ! j)"
    then have "now < start_time (ps ! j)" by (simp add: reveal_def split: if_splits)
    with j lt lifecycle_ok_pending [OF ok, of j]
    show "status (map (reveal (now + 1)) ps ! j) = NoneStatus"
      by (simp add: reveal_def split: if_splits)
  next
    fix i assume i: "i < length rs" and c: "carrying (rs ! i) \<noteq> 0"
    from lifecycle_ok_carrying [OF ok i c]
    have b: "1 \<le> carrying (rs ! i)" "carrying (rs ! i) \<le> int (length ps)"
      "start_time (ps ! nat (carrying (rs ! i) - 1)) \<le> now" by simp_all
    from b(1,2) have "nat (carrying (rs ! i) - 1) < length ps" by arith
    with b
    show "1 \<le> carrying (rs ! i) \<and>
        carrying (rs ! i) \<le> int (length (map (reveal (now + 1)) ps)) \<and>
        start_time (map (reveal (now + 1)) ps ! nat (carrying (rs ! i) - 1)) \<le> now + 1"
      by (simp add: reveal_def)
  qed
next
  show "advances ps (map (reveal (now + 1)) ps)"
    unfolding advances_def
  proof (intro conjI allI impI)
    show "length (map (reveal (now + 1)) ps) = length ps" by simp
  next
    fix j assume j: "j < length ps"
    show "rank (status (ps ! j)) \<le> rank (status (map (reveal (now + 1)) ps ! j))"
    proof (cases "start_time (ps ! j) = now + 1")
      case True
      then have "now < start_time (ps ! j)" by simp
      from lifecycle_ok_pending [OF ok j this] j show ?thesis by (simp add: reveal_def)
    next
      case False
      with j show ?thesis by (simp add: reveal_def)
    qed
  qed
qed

lemma all_delivered_iff: "all_delivered ps \<longleftrightarrow> (\<forall>p \<in> set ps. status p = Delivered)"
  by (induction ps) auto

lemma delivered_after_reveal:
  assumes ok: "lifecycle_ok now rs ps"
  shows "(\<forall>p \<in> set (map (reveal (now + 1)) ps). status p = Delivered) \<longleftrightarrow>
         (\<forall>p \<in> set ps. status p = Delivered)"
proof
  assume a: "\<forall>p \<in> set (map (reveal (now + 1)) ps). status p = Delivered"
  show "\<forall>p \<in> set ps. status p = Delivered"
  proof
    fix p assume "p \<in> set ps"
    with a have "status (reveal (now + 1) p) = Delivered" by simp
    then show "status p = Delivered" by (simp add: reveal_def split: if_splits)
  qed
next
  assume a: "\<forall>p \<in> set ps. status p = Delivered"
  show "\<forall>p \<in> set (map (reveal (now + 1)) ps). status p = Delivered"
  proof
    fix q assume "q \<in> set (map (reveal (now + 1)) ps)"
    then obtain j where j: "j < length ps" and q: "q = reveal (now + 1) (ps ! j)"
      by (auto simp: in_set_conv_nth)
    from a j have d: "status (ps ! j) = Delivered" by simp
    have "start_time (ps ! j) \<noteq> now + 1"
    proof
      assume "start_time (ps ! j) = now + 1"
      then have "now < start_time (ps ! j)" by simp
      from lifecycle_ok_pending [OF ok j this] d show False by simp
    qed
    with q d show "status q = Delivered" by (simp add: reveal_def)
  qed
qed

lemma movement_phase_inv:
  assumes "lifecycle_inv e" "movement_phase e actions = Inr (e1, r1)"
  shows "lifecycle_inv e1 \<and> packages e1 = packages e \<and> t e1 = t e \<and>
         length (robots e1) = length (robots e) \<and> max_time_steps e1 = max_time_steps e \<and>
         total_reward e1 = total_reward e"
proof -
  from movement_phase_result [OF assms(2)] obtain fp where
    e1: "e1 = e\<lparr>robots := map (\<lambda>i. (robots e ! i)\<lparr>position := fp ! i\<rparr>)
                                [0..<length (robots e)]\<rparr>"
    by blast
  have "lifecycle_ok (t e) (robots e1) (packages e)"
    by (rule ok_robots_cong [of _ "robots e"])
       (use assms(1) in \<open>simp_all add: lifecycle_inv_def e1\<close>)
  then show ?thesis by (simp add: lifecycle_inv_def e1)
qed

lemma movement_phase_Inl: "movement_phase e actions = Inl (err, e1) \<Longrightarrow> e1 = e"
  by (auto simp: movement_phase_def Let_def split: sum.splits prod.splits)

lemma step_inv:
  assumes inv: "lifecycle_inv e" and s: "step e actions = Inr (e', snap, r, d, infos)"
  shows "lifecycle_inv e' \<and> advances (packages e) (packages e') \<and> t e' = t e + 1 \<and>
         max_time_steps e' = max_time_steps e \<and>
         (d \<longleftrightarrow> t e' = max_time_steps e' \<or> (\<forall>p \<in> set (packages e'). status p = Delivered)) \<and>
         infos = (if d then [(''total_reward'', Reward (total_reward e')),
                             (''total_time_steps'', Ticks (t e'))] else []) \<and>
         total_reward e' = total_reward e + r"
proof -
  from step_parts [OF s] obtain e1 r1 e2 where
    m: "movement_phase e actions = Inr (e1, r1)"
    and p: "package_actions e1 actions [0..<length (robots e1)] r1 = Inr (e2, r)"
    and g: "(e', snap) = get_state (e2\<lparr>t := t e2 + 1, total_reward := total_reward e2 + r\<rparr>)"
    and d: "d = check_terminate (e2\<lparr>t := t e2 + 1, total_reward := total_reward e2 + r\<rparr>)"
    and i: "infos = (if d then [(''total_reward'', Reward (total_reward e2 + r)),
                               (''total_time_steps'', Ticks (t e2 + 1))] else [])"
    by blast
  from movement_phase_inv [OF inv m] have inv1: "lifecycle_inv e1"
    and f1: "packages e1 = packages e" "t e1 = t e" "max_time_steps e1 = max_time_steps e"
      "total_reward e1 = total_reward e"
    by simp_all
  have "set [0..<length (robots e1)] \<subseteq> {..<length (robots e1)}" by auto
  from package_actions_inv [OF inv1 this, of actions r1] p have inv2: "lifecycle_inv e2"
    and a2: "advances (packages e1) (packages e2)" and t2: "t e2 = t e1"
    by auto
  from package_actions_frame [OF p] have f2: "max_time_steps e2 = max_time_steps e1"
    "total_reward e2 = total_reward e1" by simp_all
  from inv2 have ok2: "lifecycle_ok (t e2) (robots e2) (packages e2)"
    by (simp add: lifecycle_inv_def)
  from get_state_packages [OF g [symmetric]] have
    e': "packages e' = map (reveal (t e2 + 1)) (packages e2)" "robots e' = robots e2"
      "t e' = t e2 + 1" "max_time_steps e' = max_time_steps e2"
      "total_reward e' = total_reward e2 + r"
    by simp_all
  from ok_tick_reveal [OF ok2] have "lifecycle_inv e'"
    and a3: "advances (packages e2) (packages e')"
    by (simp_all add: lifecycle_inv_def e')
  moreover have "advances (packages e) (packages e')"
    using advances_trans [OF a2 a3] f1 by simp
  moreover have "d \<longleftrightarrow> t e' = max_time_steps e' \<or> (\<forall>p \<in> set (packages e'). status p = Delivered)"
    unfolding d e' using delivered_after_reveal [OF ok2]
    by (simp add: check_terminate_def all_delivered_iff)
  ultimately show ?thesis using e' f1 f2 t2 i by simp
qed

lemma step_failed_same:
  assumes inv: "lifecycle_inv e" and s: "step e actions = Inl (err, e1)"
  shows "e1 = e"
proof (cases "length actions = length (robots e)")
  case False
  with s show ?thesis by (simp add: step_def)
next
  case True
  show ?thesis
  proof (cases "movement_phase e actions")
    case (Inl a)
    with s True have "a = (err, e1)" by (simp add: step_def)
    with Inl movement_phase_Inl show ?thesis by blast
  next
    case (Inr b)
    obtain e1' r1 where b: "b = (e1', r1)" by (cases b)
    from movement_phase_inv [OF inv Inr [unfolded b]] have inv1: "lifecycle_inv e1'" by simp
    have "set [0..<length (robots e1')] \<subseteq> {..<length (robots e1')}" by auto
    from package_actions_inv [OF inv1 this, of actions r1] obtain e2 r2 where
      "package_actions e1' actions [0..<length (robots e1')] r1 = Inr (e2, r2)" by blast
    with s True Inr b show ?thesis
      by (simp add: step_def Let_def split: prod.splits)
  qed
qed


lemma add_robot_frame:
  "add_robot e pos = Inr e' \<Longrightarrow>
   t e' = t e \<and> packages e' = packages e \<and>
   robots e' = robots e @ [\<lparr>position = pos, carrying = 0\<rparr>]"
  by (auto simp: add_robot_def split: sum.splits if_splits)

lemma place_robots_frame:
  "place_robots e g is draws = Inr (e', g', d') \<Longrightarrow>
   t e' = t e \<and> packages e' = packages e \<and>
   ((\<forall>rb \<in> set (robots e). carrying rb = 0) \<longrightarrow> (\<forall>rb \<in> set (robots e'). carrying rb = 0))"
proof (induction "is" arbitrary: e g draws)
  case Nil
  then show ?case by simp
next
  case (Cons i rest)
  from Cons.prems obtain pos g1 d1 e1 where
    a: "add_robot e pos = Inr e1" and p: "place_robots e1 g1 rest d1 = Inr (e', g', d')"
    by (auto split: sum.splits prod.splits)
  from add_robot_frame [OF a] Cons.IH [OF p] show ?case by auto
qed

lemma reset_inv:
  assumes "reset e draws = Inr (e', snap, draws')"
  shows "lifecycle_inv e'"
proof -
  let ?e0 = "e\<lparr>t := 0, robots := [], packages := [], total_reward := 0\<rparr>"
  from assms obtain e1 g1 d1 recs where
    p: "place_robots ?e0 (grid ?e0) [0..<nat (n_robots ?e0)] draws = Inr (e1, g1, d1)"
    and g: "get_state (e1\<lparr>packages :=
               map (\<lambda>i. make_package (sort_key fst recs ! i) (int i + 1))
                   [0..<nat (n_packages e1)]\<rparr>) = (e', snap)"
    by (auto simp: reset_def Let_def split: sum.splits prod.splits)
  from place_robots_frame [OF p] have t1: "t e1 = 0"
    and c1: "\<forall>rb \<in> set (robots e1). carrying rb = 0" by simp_all
  let ?ps = "map (\<lambda>i. make_package (sort_key fst recs ! i) (int i + 1))
                 [0..<nat (n_packages e1)]"
  from get_state_packages [OF g] t1 have e': "packages e' = map (reveal 0) ?ps"
    "robots e' = robots e1" "t e' = 0" by simp_all
  have "lifecycle_ok 0 (robots e1) (map (reveal 0) ?ps)"
  proof (rule lifecycle_okI)
    fix j assume "j < length (map (reveal 0) ?ps)"
    then show "package_id (map (reveal 0) ?ps ! j) = int j + 1"
      by (simp add: reveal_def make_package_def split: prod.splits)
  next
    fix j assume "j < length (map (reveal 0) ?ps)" "0 < start_time (map (reveal 0) ?ps ! j)"
    then show "status (map (reveal 0) ?ps ! j) = NoneStatus"
      by (simp add: reveal_def make_package_def split: prod.splits if_splits)
  next
    fix i assume "i < length (robots e1)" "carrying (robots e1 ! i) \<noteq> 0"
    with c1 have False by simp
    then show "1 \<le> carrying (robots e1 ! i) \<and>
        carrying (robots e1 ! i) \<le> int (length (map (reveal 0) ?ps)) \<and>
        start_time (map (reveal 0) ?ps ! nat (carrying (robots e1 ! i) - 1)) \<le> 0" ..
  qed
  then show ?thesis by (simp add: lifecycle_inv_def e')
qed

lemma reachable_inv: "reachable e \<Longrightarrow> lifecycle_inv e"
proof (induction rule: reachable.induct)
  case (after_reset e draws e' snap draws')
  then show ?case by (rule reset_inv)
next
  case (after_step e actions e' snap r d infos)
  from step_inv [OF after_step.IH after_step.hyps(2)] show ?case by simp
qed

lemma later_advances:
  assumes "later e e'" "reachable e"
  shows "reachable e' \<and> advances (packages e) (packages e')"
  using assms
proof (induction rule: later.induct)
  case (later_refl e)
  then show ?case by (simp add: advances_refl)
next
  case (later_step e e1 actions e2 snap r d infos)
  then have r1: "reachable e1" and a1: "advances (packages e) (packages e1)" by simp_all
  from step_inv [OF reachable_inv [OF r1] later_step.hyps(2)]
  have "advances (packages e1) (packages e2)" by simp
  with a1 have "advances (packages e) (packages e2)" by (rule advances_trans)
  moreover from r1 later_step.hyps(2) have "reachable e2" by (rule after_step)
  ultimately show ?case by simp
next
  case (later_raise e e1 actions err e2)
  then have r1: "reachable e1" and a1: "advances (packages e) (packages e1)" by simp_all
  from step_failed_same [OF reachable_inv [OF r1] later_raise.hyps(2)] have "e2 = e1" .
  with r1 a1 show ?case by simp
qed

lemma rank_Delivered: "rank s' \<ge> rank Delivered \<longleftrightarrow> s' = Delivered"
  by (cases s') simp_all

text \<open>
  Claim C7. Let \<open>e\<close> be an environment that a \<^verbatim>\<open>reset\<close> and any number of steps have led
  to, and \<open>e'\<close> what any further calls of \<^verbatim>\<open>step\<close> make of it. Then \<open>e'\<close> holds the same
  packages, in the same places of the list and with the same ids, and the status of each
  of them in \<open>e'\<close> is the one it has in \<open>e\<close> or a later one in the order
  \<^verbatim>\<open>'None'\<close> (pending) < \<^verbatim>\<open>'waiting'\<close> < \<^verbatim>\<open>'in_transit'\<close> < \<^verbatim>\<open>'delivered'\<close>; a package
  that is delivered in \<open>e\<close> is delivered in \<open>e'\<close>. A \<^verbatim>\<open>reset\<close> replaces the packages by new
  ones, whose life starts there.
\<close>

theorem package_status_monotone:
  assumes "reachable e" and "later e e'"
  shows "length (packages e') = length (packages e) \<and>
         (\<forall>j < length (packages e).
            package_id (packages e' ! j) = package_id (packages e ! j) \<and>
            rank (status (packages e ! j)) \<le> rank (status (packages e' ! j)) \<and>
            (status (packages e ! j) = Delivered \<longrightarrow> status (packages e' ! j) = Delivered))"
proof -
  from later_advances [OF assms(2,1)] have r': "reachable e'"
    and a: "advances (packages e) (packages e')" by simp_all
  from a have len: "length (packages e') = length (packages e)" by (simp add: advances_def)
  have "package_id (packages e' ! j) = package_id (packages e ! j) \<and>
        rank (status (packages e ! j)) \<le> rank (status (packages e' ! j)) \<and>
        (status (packages e ! j) = Delivered \<longrightarrow> status (packages e' ! j) = Delivered)"
    if j: "j < length (packages e)" for j
  proof -
    from reachable_inv [OF assms(1)] j have "package_id (packages e ! j) = int j + 1"
      by (simp add: lifecycle_inv_def lifecycle_ok_id)
    moreover from reachable_inv [OF r'] j len have "package_id (packages e' ! j) = int j + 1"
      by (simp add: lifecycle_inv_def lifecycle_ok_id)
    moreover from a j have le: "rank (status (packages e ! j)) \<le> rank (status (packages e' ! j))"
      by (simp add: advances_def)
    moreover have "status (packages e' ! j) = Delivered" if "status (packages e ! j) = Delivered"
      using le that rank_Delivered [of "status (packages e' ! j)"] by simp
    ultimately show ?thesis by simp
  qed
  with len show ?thesis by simp
qed

theorem package_status_monotone_witness:
  "reachable example_start \<and> later example_start example_dropped \<and>
   length (packages example_dropped) = length (packages example_start) \<and>
   status (packages example_start ! 0) = Waiting \<and>
   status (packages example_dropped ! 0) = Delivered \<and>
   rank (status (packages example_start ! 0)) \<le> rank (status (packages example_dropped ! 0)) \<and>
   package_id (packages example_dropped ! 0) = package_id (packages example_start ! 0)"
proof -
  have r: "reachable example_start" by (rule after_reset [OF example_reset])
  have "later example_start example_picked"
    by (rule later_step [OF later_refl example_pick_step])
  then have l: "later example_start example_dropped"
    by (rule later_step [OF _ example_drop_step])
  have "(0::nat) < length (packages example_start)" by (simp add: example_start_def)
  with package_status_monotone [OF r l]
  have "length (packages example_dropped) = length (packages example_start) \<and>
        package_id (packages example_dropped ! 0) = package_id (packages example_start ! 0) \<and>
        rank (status (packages example_start ! 0)) \<le> rank (status (packages example_dropped ! 0))"
    by blast
  with r l show ?thesis by (simp add: example_start_def example_dropped_def)
qed

section \<open>The end of an episode\<close>

text \<open>
  Claim C6. When a \<^verbatim>\<open>step\<close> on an environment that a \<^verbatim>\<open>reset\<close> and steps have led to
  returns, the tick has grown by one, and \<^verbatim>\<open>done\<close> is true if and only if the new tick is
  \<^verbatim>\<open>max_time_steps\<close> or every package has the status \<^verbatim>\<open>'delivered'\<close>. The reward returned
  has been added to \<^verbatim>\<open>total_reward\<close>. If \<^verbatim>\<open>done\<close> is true, \<^verbatim>\<open>infos\<close> holds the cumulative
  reward under \<^verbatim>\<open>total_reward\<close> and the tick under \<^verbatim>\<open>total_time_steps\<close>, nothing else;
  otherwise it is empty.
\<close>

theorem done_flag_and_infos:
  assumes "reachable e" and "step e actions = Inr (e', snap, r, d, infos)"
  shows "t e' = t e + 1 \<and>
         (d \<longleftrightarrow> t e' = max_time_steps e' \<or> (\<forall>p \<in> set (packages e'). status p = Delivered)) \<and>
         total_reward e' = total_reward e + r \<and>
         infos = (if d then [(''total_reward'', Reward (total_reward e')),
                             (''total_time_steps'', Ticks (t e'))] else [])"
  using step_inv [OF reachable_inv [OF assms(1)] assms(2)] by simp

theorem done_flag_and_infos_witness:
  "reachable short_start \<and>
   step short_start [(''L'', ''1'')] =
     Inr (short_end, short_end_snapshot, - 1, True,
          [(''total_reward'', Reward (- 1)), (''total_time_steps'', Ticks 1)]) \<and>
   t short_end = t short_start + 1 \<and> t short_end = max_time_steps short_end \<and>
   total_reward short_end = total_reward short_start + (- 1) \<and>
   [(''total_reward'', Reward (- 1)), (''total_time_steps'', Ticks 1)] =
     [(''total_reward'', Reward (total_reward short_end)),
      (''total_time_steps'', Ticks (t short_end))]"
proof -
  have r: "reachable short_start" by (rule after_reset [OF short_reset])
  from done_flag_and_infos [OF r short_step] r short_step show ?thesis
    by (simp add: short_end_def)
qed

end
